theory Spec2Isabelle
  imports Complex_Main "HOL-Library.AList" "HOL-Library.Char_ord" "HOL-Library.List_Lexorder"
    "HOL-Library.Product_Lexorder"
begin

section \<open>Data model of the partitioner\<close>

text \<open>
  The program under study is \<^verbatim>\<open>MHG_partition.py\<close>.  Exceptions become values of the type
  \<open>error\<close>; a function that can raise returns \<open>error + 'a\<close> with \<open>Inl\<close> the raised exception.
  Python integers are unbounded and are modelled by \<open>int\<close>; bit arrays are Python strings over
  the characters \<open>0\<close> and \<open>1\<close> and are modelled by \<open>string\<close>.

  A vertex of the alignment graph (a \<^emph>\<open>node\<close>) is a pair of an accession and the node interval;
  a vertex of a module (a \<^emph>\<open>block\<close>) is a triple of a node, a path interval and an orientation.
  The program only ever writes the orientations \<^verbatim>\<open>"+"\<close> and \<^verbatim>\<open>"-"\<close>; every test of the form
  \<^verbatim>\<open>direction == "+"\<close> treats anything else as \<^verbatim>\<open>"-"\<close>.
\<close>

datatype error = ValueError string | KeyError string

type_synonym mask = string

type_synonym interval = "int \<times> int"

datatype orientation = Plus | Minus

type_synonym node = "string \<times> interval"

type_synonym block = "node \<times> interval \<times> orientation"

subsection \<open>Bit-array slicing: \<^verbatim>\<open>nth_item\<close> and \<^verbatim>\<open>choppedIndex\<close>\<close>

text \<open>\<^verbatim>\<open>list(x).count('1')\<close>, the number of aligned columns of a bit array.\<close>

definition count1 :: "mask \<Rightarrow> nat" where
  "count1 m = count_list m (CHR ''1'')"

text \<open>
  \<^verbatim>\<open>compress(count(), map(partial(eq, item), iterable))\<close>: the positions, counted from
  \<open>i\<close>, at which the iterable holds \<open>item\<close>.
\<close>

fun compress_count :: "'a \<Rightarrow> 'a list \<Rightarrow> nat \<Rightarrow> nat list" where
  "compress_count item [] i = []"
| "compress_count item (x # xs) i =
     (if item = x then i # compress_count item xs (Suc i) else compress_count item xs (Suc i))"

text \<open>\<^verbatim>\<open>sys.maxsize\<close> of a 64-bit CPython.\<close>

definition sys_maxsize :: int where
  "sys_maxsize = 9223372036854775807"

text \<open>
  \<^verbatim>\<open>next(islice(indicies, n, None), -1)\<close>: \<^verbatim>\<open>islice\<close> raises \<^verbatim>\<open>ValueError\<close> unless
  \<open>0 \<le> n \<le> sys.maxsize\<close>; an exhausted iterator yields the default \<open>-1\<close>.  A Python list
  holds at most \<^verbatim>\<open>sys.maxsize\<close> items, so every list of a run passes the length test below;
  the test only keeps the function defined by the positions alone on the longer lists of HOL,
  which no run can build.
\<close>

definition nth_item :: "int \<Rightarrow> 'a \<Rightarrow> 'a list \<Rightarrow> error + int" where
  "nth_item n item iterable =
     (if n < 0 \<or> (sys_maxsize < n \<and> int (length iterable) \<le> sys_maxsize)
      then Inl (ValueError ''Indices for islice() must be None or an integer'')
      else (let indicies = compress_count item iterable 0 in
            if nat n < length indicies then Inr (int (indicies ! nat n)) else Inr (- 1)))"

definition choppedIndex :: "mask \<Rightarrow> int \<Rightarrow> error + int" where
  "choppedIndex blockArray offset =
     (let offset = (if offset = 0 then 1 else offset) in
      case nth_item (offset - 1) (CHR ''1'') blockArray of
        Inl e \<Rightarrow> Inl (ValueError ''offset is negative'')
      | Inr chopIndex \<Rightarrow> Inr (chopIndex + 1))"

subsection \<open>Module graphs (\<^verbatim>\<open>networkx.MultiDiGraph\<close>)\<close>

text \<open>
  A \<^verbatim>\<open>MultiDiGraph\<close> is a dictionary from vertices to dictionaries from successors to
  dictionaries from edge keys to edge data; the only edge datum the program stores is
  \<^verbatim>\<open>weight\<close>, a bit array.  Dictionaries keep insertion order, so they are association lists:
  \<open>AList.update\<close> overwrites the value of a present key in place and appends an absent key.
  The vertices of a graph are the keys of the outer dictionary, in insertion order.
\<close>

type_synonym 'v graph = "('v \<times> ('v \<times> (nat \<times> mask) list) list) list"

text \<open>\<^verbatim>\<open>list(G.nodes)\<close>.\<close>

definition nodes_of :: "'v graph \<Rightarrow> 'v list" where
  "nodes_of G = map fst G"

text \<open>\<^verbatim>\<open>G.add_node(n)\<close>: a present vertex is left where it is.\<close>

definition add_node :: "'v \<Rightarrow> 'v graph \<Rightarrow> 'v graph" where
  "add_node n G = (if n \<in> set (nodes_of G) then G else G @ [(n, [])])"

text \<open>\<^verbatim>\<open>G[u]\<close> and \<^verbatim>\<open>G[u][v]\<close>, read as empty when absent.\<close>

definition succ_of :: "'v graph \<Rightarrow> 'v \<Rightarrow> ('v \<times> (nat \<times> mask) list) list" where
  "succ_of G u = (case map_of G u of Some nb \<Rightarrow> nb | None \<Rightarrow> [])"

definition keydict_of :: "'v graph \<Rightarrow> 'v \<Rightarrow> 'v \<Rightarrow> (nat \<times> mask) list" where
  "keydict_of G u v = (case map_of (succ_of G u) v of Some kd \<Rightarrow> kd | None \<Rightarrow> [])"

text \<open>
  \<^verbatim>\<open>new_edge_key\<close>: start at the number of parallel edges and count up while the key is taken
  (at most once per existing key, which bounds the loop).
\<close>

fun free_key :: "nat list \<Rightarrow> nat \<Rightarrow> nat \<Rightarrow> nat" where
  "free_key keys k 0 = k"
| "free_key keys k (Suc fuel) = (if k \<in> set keys then free_key keys (Suc k) fuel else k)"

definition new_edge_key :: "'v graph \<Rightarrow> 'v \<Rightarrow> 'v \<Rightarrow> nat" where
  "new_edge_key G u v = (let kd = keydict_of G u v in free_key (map fst kd) (length kd) (length kd))"

text \<open>
  \<^verbatim>\<open>G.add_edge(u, v, key, weight=w)\<close>: both endpoints become vertices (first \<open>u\<close>, then \<open>v\<close>),
  then the weight is stored under the key, overwriting an edge with the same key.
\<close>

definition add_edge_key :: "'v \<Rightarrow> 'v \<Rightarrow> nat \<Rightarrow> mask \<Rightarrow> 'v graph \<Rightarrow> 'v graph" where
  "add_edge_key u v key w G =
     (let G1 = add_node v (add_node u G) in
      AList.update u (AList.update v (AList.update key w (keydict_of G1 u v)) (succ_of G1 u)) G1)"

text \<open>\<^verbatim>\<open>G.add_edge(u, v, weight=w)\<close>, with a fresh key.\<close>

definition add_edge :: "'v \<Rightarrow> 'v \<Rightarrow> mask \<Rightarrow> 'v graph \<Rightarrow> 'v graph" where
  "add_edge u v w G = add_edge_key u v (new_edge_key G u v) w G"


definition edges_of :: "'v graph \<Rightarrow> ('v \<times> 'v \<times> nat) list" where
  "edges_of G =
     concat (map (\<lambda>(u, nb). concat (map (\<lambda>(v, kd). map (\<lambda>(k, w). (u, v, k)) kd) nb)) G)"

text \<open>The edges together with their bit arrays: \<^verbatim>\<open>G.edges(keys=True, data='weight')\<close>.\<close>

definition edge_weights :: "'v graph \<Rightarrow> ('v \<times> 'v \<times> nat \<times> mask) list" where
  "edge_weights G =
     concat (map (\<lambda>(u, nb). concat (map (\<lambda>(v, kd). map (\<lambda>(k, w). (u, v, k, w)) kd) nb)) G)"

text \<open>\<^verbatim>\<open>G[s][d][i]['weight']\<close>; \<open>None\<close> stands for the \<^verbatim>\<open>KeyError\<close>.\<close>

definition get_weight :: "'v graph \<Rightarrow> 'v \<Rightarrow> 'v \<Rightarrow> nat \<Rightarrow> mask option" where
  "get_weight G s d i = map_of (keydict_of G s d) i"

text \<open>
  The association lists that stand for dictionaries have distinct keys, every successor is a
  vertex, and a successor entry exists only once an edge was stored under it.  Every graph the
  program builds (from the empty graph by \<open>add_node\<close> and \<open>add_edge\<close>) is of this form.
\<close>

definition wf_graph :: "'v graph \<Rightarrow> bool" where
  "wf_graph G \<longleftrightarrow>
     distinct (map fst G) \<and>
     (\<forall>(u, nb) \<in> set G. distinct (map fst nb) \<and>
        (\<forall>(v, kd) \<in> set nb. v \<in> set (map fst G) \<and> kd \<noteq> [] \<and> distinct (map fst kd)))"

subsection \<open>\<^verbatim>\<open>signReverse\<close>\<close>

fun flipSign :: "orientation \<Rightarrow> orientation" where
  "flipSign Minus = Plus"
| "flipSign Plus = Minus"

text \<open>The loop body that fills \<^verbatim>\<open>nodeMapping\<close>: \<^verbatim>\<open>newNode[2] = "+" if newNode[2] == "-" else "-"\<close>.\<close>

definition flipNode :: "block \<Rightarrow> block" where
  "flipNode node = (case node of (name, path, direction) \<Rightarrow> (name, path, flipSign direction))"

text \<open>
  The vertices are added in their order; then every edge of \<^verbatim>\<open>list(module.edges)\<close> is added
  between the mapped endpoints under its own key, with the bit array
  \<^verbatim>\<open>module[s][d][i]['weight'][::-1]\<close>.  The lookup cannot fail for an edge the iteration yields.
\<close>

definition signReverse :: "block graph \<Rightarrow> block graph" where
  "signReverse module' =
     (let newNodes = map flipNode (nodes_of module');
          reverseSign = fold add_node newNodes []
      in fold (\<lambda>(s, d, i) g. add_edge_key (flipNode s) (flipNode d) i
                 (rev (case get_weight module' s d i of Some w \<Rightarrow> w | None \<Rightarrow> [])) g)
           (edges_of module') reverseSign)"

text \<open>
  The graph that \<open>signReverse\<close> is shown to compute: every vertex renamed by \<open>f\<close>, every bit
  array reversed, the shape untouched.
\<close>

definition map_keydict :: "(nat \<times> mask) list \<Rightarrow> (nat \<times> mask) list" where
  "map_keydict kd = map (\<lambda>(k, w). (k, rev w)) kd"

definition map_succ ::
  "('v \<Rightarrow> 'w) \<Rightarrow> ('v \<times> (nat \<times> mask) list) list \<Rightarrow> ('w \<times> (nat \<times> mask) list) list" where
  "map_succ f nb = map (\<lambda>(v, kd). (f v, map_keydict kd)) nb"

definition map_graph :: "('v \<Rightarrow> 'w) \<Rightarrow> 'v graph \<Rightarrow> 'w graph" where
  "map_graph f G = map (\<lambda>(u, nb). (f u, map_succ f nb)) G"

text \<open>One \<open>add_edge_key\<close> seen on the successor dictionary of its source.\<close>

definition step_succ ::
  "'v \<Rightarrow> nat \<Rightarrow> mask \<Rightarrow> ('v \<times> (nat \<times> mask) list) list \<Rightarrow> ('v \<times> (nat \<times> mask) list) list" where
  "step_succ v k w acc =
     AList.update v (AList.update k w (case map_of acc v of Some kd \<Rightarrow> kd | None \<Rightarrow> [])) acc"

definition sr_step :: "block graph \<Rightarrow> block \<times> block \<times> nat \<Rightarrow> block graph \<Rightarrow> block graph" where
  "sr_step module' = (\<lambda>(s, d, i) g. add_edge_key (flipNode s) (flipNode d) i
                 (rev (case get_weight module' s d i of Some w \<Rightarrow> w | None \<Rightarrow> [])) g)"

text \<open>A module of two blocks joined by two parallel pairs of dual edges, for the examples.\<close>

definition example_u :: block where
  "example_u = ((''A'', (1, 100)), (1, 50), Plus)"

definition example_v :: block where
  "example_v = ((''B'', (1, 100)), (1, 50), Minus)"

definition example_module :: "block graph" where
  "example_module =
     add_edge example_u example_v ''110'' (add_edge example_v example_u ''011''
       (add_edge example_u example_v ''111'' (add_edge example_v example_u ''101'' [])))"

subsection \<open>\<^verbatim>\<open>partitionToTwoModules\<close>\<close>





text \<open>
  The variables of the function that the loop changes.  \<^verbatim>\<open>nodeSet\<close> is a set, here a list
  without regard to order; \<^verbatim>\<open>seg_distance_dic\<close> is a \<^verbatim>\<open>defaultdict(lambda: -1)\<close>.
\<close>

record p2m_state =
  edgeList :: "(block \<times> block \<times> nat) list"
  nodeSet :: "block list"
  seg_distance_dic :: "block \<Rightarrow> int"
  first_node_dic :: "(block \<times> block) list"
  second_node_dic :: "(block \<times> block) list"
  firstPart :: "block graph"
  secondPart :: "block graph"











text \<open>
  Invariant of the loop of \<^verbatim>\<open>partitionToTwoModules\<close> for the block \<open>v\<close> split at \<open>k\<close> into the
  fragments \<open>f1\<close> and \<open>f2\<close>: either nothing was placed yet, so that \<open>v\<close> is the only block
  with a distance and the dictionaries hold its two fragments, or the two fragments already
  are vertices of the two parts.
\<close>

definition p2m_fresh :: "block \<Rightarrow> int \<Rightarrow> block \<Rightarrow> block \<Rightarrow> p2m_state \<Rightarrow> bool" where
  "p2m_fresh v k f1 f2 st \<longleftrightarrow>
     seg_distance_dic st = (\<lambda>b. - 1)(v := k) \<and> map_of (first_node_dic st) v = Some f1
     \<and> map_of (second_node_dic st) v = Some f2 \<and> nodeSet st \<noteq> []"

definition p2m_placed :: "block \<Rightarrow> block \<Rightarrow> p2m_state \<Rightarrow> bool" where
  "p2m_placed f1 f2 st \<longleftrightarrow>
     f1 \<in> set (nodes_of (firstPart st)) \<and> f2 \<in> set (nodes_of (secondPart st))"






subsection \<open>The two indexes\<close>

text \<open>
  \<^verbatim>\<open>nodeToPathDic\<close> is a \<^verbatim>\<open>defaultdict(lambda: set())\<close> from nodes to sets of path intervals,
  \<^verbatim>\<open>nodePathToModuleDic\<close> a dictionary from (node, path) pairs to module graphs.  The sets are
  mutable objects that the program changes in place and that a copy of the dictionary shares
  with the original, so the dictionary maps a node to the \<^emph>\<open>address\<close> of its set and a heap
  maps addresses to sets.  A set is a duplicate-free list; Python leaves its iteration order
  open, the list fixes one.
\<close>

record indexes =
  nodeToPathDic :: "(node \<times> nat) list"
  setHeap :: "nat \<Rightarrow> interval list"
  nextAddr :: nat
  nodePathToModuleDic :: "((node \<times> interval) \<times> block graph) list"

definition empty_indexes :: indexes where
  "empty_indexes = \<lparr>nodeToPathDic = [], setHeap = (\<lambda>a. []), nextAddr = 0, nodePathToModuleDic = []\<rparr>"

text \<open>\<^verbatim>\<open>nodeToPathDic[node]\<close>: reading an absent key stores a new empty set under it.\<close>

definition getitem_set :: "node \<Rightarrow> indexes \<Rightarrow> nat \<times> indexes" where
  "getitem_set n st =
     (case map_of (nodeToPathDic st) n of
        Some a \<Rightarrow> (a, st)
      | None \<Rightarrow> (nextAddr st,
                 st\<lparr>nodeToPathDic := nodeToPathDic st @ [(n, nextAddr st)],
                    setHeap := (setHeap st)(nextAddr st := []),
                    nextAddr := Suc (nextAddr st)\<rparr>))"

text \<open>\<^verbatim>\<open>nodeToPathDic[node].add(path)\<close> and \<^verbatim>\<open>nodeToPathDic[node].discard(path)\<close>.\<close>

definition set_add :: "node \<Rightarrow> interval \<Rightarrow> indexes \<Rightarrow> indexes" where
  "set_add n p st =
     (case getitem_set n st of
        (a, st1) \<Rightarrow> st1\<lparr>setHeap := (setHeap st1)(a := List.insert p (setHeap st1 a))\<rparr>)"

definition set_discard :: "node \<Rightarrow> interval \<Rightarrow> indexes \<Rightarrow> indexes" where
  "set_discard n p st =
     (case getitem_set n st of
        (a, st1) \<Rightarrow> st1\<lparr>setHeap := (setHeap st1)(a := removeAll p (setHeap st1 a))\<rparr>)"

text \<open>\<^verbatim>\<open>nodePathToModuleDic[key] = module\<close> and \<^verbatim>\<open>nodePathToModuleDic.pop(key, None)\<close>.\<close>

definition dict_assign :: "node \<times> interval \<Rightarrow> block graph \<Rightarrow> indexes \<Rightarrow> indexes" where
  "dict_assign key m st = st\<lparr>nodePathToModuleDic := AList.update key m (nodePathToModuleDic st)\<rparr>"

definition dict_pop :: "node \<times> interval \<Rightarrow> indexes \<Rightarrow> indexes" where
  "dict_pop key st = st\<lparr>nodePathToModuleDic := AList.delete key (nodePathToModuleDic st)\<rparr>"

text \<open>What the indexes say: the live paths of a node, and the module of a (node, path) pair.\<close>

definition paths_of :: "indexes \<Rightarrow> node \<Rightarrow> interval set" where
  "paths_of st n = (case map_of (nodeToPathDic st) n of None \<Rightarrow> {} | Some a \<Rightarrow> set (setHeap st a))"

definition module_of :: "indexes \<Rightarrow> node \<times> interval \<Rightarrow> block graph option" where
  "module_of st key = map_of (nodePathToModuleDic st) key"

text \<open>
  In a state of the program the dictionary has distinct keys, no two keys share a set object,
  and every address in use was handed out before.
\<close>

definition wf_indexes :: "indexes \<Rightarrow> bool" where
  "wf_indexes st \<longleftrightarrow>
     distinct (map fst (nodeToPathDic st)) \<and> distinct (map snd (nodeToPathDic st)) \<and>
     (\<forall>a \<in> set (map snd (nodeToPathDic st)). a < nextAddr st)"

subsection \<open>\<^verbatim>\<open>removeOldModule\<close>, \<^verbatim>\<open>updateNewModule\<close> and the registration loop of \<^verbatim>\<open>checkBlockOverlap\<close>\<close>

definition removeOldModule :: "block graph \<Rightarrow> indexes \<Rightarrow> indexes" where
  "removeOldModule oldModule st =
     fold (\<lambda>(nodeName, pathTuple, direction) st.
             dict_pop (nodeName, pathTuple) (set_discard nodeName pathTuple st))
          (nodes_of oldModule) st"

text \<open>
  The loop \<^verbatim>\<open>for (nodeName, pathTuple, direction) in newModuleList\<close>; its \<^verbatim>\<open>break\<close> ends the
  loop at the first block shorter than \<open>trimLength\<close>.
\<close>

fun updateNewModule_loop :: "int \<Rightarrow> block graph \<Rightarrow> block list \<Rightarrow> indexes \<Rightarrow> indexes" where
  "updateNewModule_loop trimLength newModule [] st = st"
| "updateNewModule_loop trimLength newModule ((nodeName, pathTuple, direction) # rest) st =
     (if snd pathTuple - fst pathTuple < trimLength then st
      else updateNewModule_loop trimLength newModule rest
             (dict_assign (nodeName, pathTuple) newModule (set_add nodeName pathTuple st)))"

definition updateNewModule :: "block graph \<Rightarrow> indexes \<Rightarrow> indexes" where
  "updateNewModule newModule st = updateNewModule_loop 20 newModule (nodes_of newModule) st"

text \<open>
  The \<^verbatim>\<open>else\<close> branch of \<^verbatim>\<open>checkBlockOverlap\<close> (more than one new module): the blocks of the old
  module are taken out, then every new module is registered by the same loop, written out
  there with the literal \<open>20\<close>.
\<close>

definition checkBlockOverlap_register :: "block list \<Rightarrow> block graph list \<Rightarrow> indexes \<Rightarrow> indexes" where
  "checkBlockOverlap_register oldModuleList updatedModuleList st =
     (let st1 = fold (\<lambda>(nodeName, pathTuple, direction) st.
                        dict_pop (nodeName, pathTuple) (set_discard nodeName pathTuple st))
                     oldModuleList st
      in fold (\<lambda>newModule st. updateNewModule_loop 20 newModule (nodes_of newModule) st)
              updatedModuleList st1)"

subsection \<open>\<^verbatim>\<open>trimShortModules\<close>\<close>

text \<open>The inner loop over \<^verbatim>\<open>zip(pathList, lengthList)\<close> for one node.\<close>

definition trimShortModules_paths :: "int \<Rightarrow> node \<Rightarrow> interval list \<Rightarrow> indexes \<Rightarrow> indexes" where
  "trimShortModules_paths trimLength node pathList st =
     fold (\<lambda>(start, end) st.
             if end - start < trimLength
             then dict_pop (node, (start, end)) (set_discard node (start, end) st)
             else st)
          pathList st"

text \<open>The outer loop over \<^verbatim>\<open>nodeToPathDic.keys()\<close>, with \<^verbatim>\<open>pathList = list(nodeToPathDic[node])\<close>.\<close>

definition trimShortModules_node :: "int \<Rightarrow> node \<Rightarrow> indexes \<Rightarrow> indexes" where
  "trimShortModules_node trimLength node st =
     (case getitem_set node st of
        (a, st1) \<Rightarrow> trimShortModules_paths trimLength node (setHeap st1 a) st1)"

definition trimShortModules :: "indexes \<Rightarrow> indexes" where
  "trimShortModules st = fold (trimShortModules_node 10) (map fst (nodeToPathDic st)) st"

text \<open>
  Auxiliary notions for reasoning about the trimming loops: the list that stands for the set of
  a node, the paths of a list that are shorter than the threshold, and the dictionary entries
  of a node that the inner loop pops.
\<close>

definition set_at :: "indexes \<Rightarrow> node \<Rightarrow> interval list" where
  "set_at st n = (case map_of (nodeToPathDic st) n of None \<Rightarrow> [] | Some a \<Rightarrow> setHeap st a)"

definition short_in :: "int \<Rightarrow> interval list \<Rightarrow> interval \<Rightarrow> bool" where
  "short_in t ps q \<longleftrightarrow> q \<in> set ps \<and> snd q - fst q < t"

definition trimmed_key :: "int \<Rightarrow> node \<Rightarrow> interval list \<Rightarrow> (node \<times> interval) \<times> block graph \<Rightarrow> bool" where
  "trimmed_key t n ps e \<longleftrightarrow> fst (fst e) = n \<and> short_in t ps (snd (fst e))"

subsection \<open>The driver \<^verbatim>\<open>main\<close>: one strongly connected component\<close>

text \<open>
  Python compares tuples lexicographically and \<^verbatim>\<open>"+"\<close> sorts before \<^verbatim>\<open>"-"\<close>.
\<close>

instantiation orientation :: linorder
begin

definition less_eq_orientation :: "orientation \<Rightarrow> orientation \<Rightarrow> bool" where
  "less_eq_orientation a b \<longleftrightarrow> a = Plus \<or> b = Minus"

definition less_orientation :: "orientation \<Rightarrow> orientation \<Rightarrow> bool" where
  "less_orientation a b \<longleftrightarrow> a = Plus \<and> b = Minus"

instance
proof
  fix x y z :: orientation
  show "(x < y) = (x \<le> y \<and> \<not> y \<le> x)"
    by (cases x; cases y) (simp_all add: less_eq_orientation_def less_orientation_def)
  show "x \<le> x"
    by (cases x) (simp_all add: less_eq_orientation_def)
  show "x \<le> y \<Longrightarrow> y \<le> z \<Longrightarrow> x \<le> z"
    by (cases x; cases y; cases z) (simp_all add: less_eq_orientation_def)
  show "x \<le> y \<Longrightarrow> y \<le> x \<Longrightarrow> x = y"
    by (cases x; cases y) (simp_all add: less_eq_orientation_def)
  show "x \<le> y \<or> y \<le> x"
    by (cases x; cases y) (simp_all add: less_eq_orientation_def)
qed

end

record scc_state =
  nodeList :: "node list"
  visitedEdgePair :: "((node \<times> interval) \<times> (node \<times> interval)) list"
  numberOfEdges :: nat
  index :: indexes

text \<open>\<^verbatim>\<open>tuple(sorted(path))\<close> and \<^verbatim>\<open>tuple(sorted((a, b)))\<close>.\<close>

definition sorted_path :: "interval \<Rightarrow> interval" where
  "sorted_path p = (if fst p \<le> snd p then p else (snd p, fst p))"

definition sorted_pair :: "'a::linorder \<Rightarrow> 'a \<Rightarrow> 'a \<times> 'a" where
  "sorted_pair a b = (if a \<le> b then (a, b) else (b, a))"

text \<open>
  \<^verbatim>\<open>nodePartition\<close>: the sorted distinct end points of the two intervals, cut into consecutive
  pieces.
\<close>

definition nodePartition :: "interval \<Rightarrow> interval \<Rightarrow> interval list" where
  "nodePartition position node =
     (let updatedBlockList = sort (remdups [fst position, snd position, fst node, snd node])
      in zip updatedBlockList (tl updatedBlockList))"

text \<open>\<^verbatim>\<open>multiChopNodePartition\<close>: the same with a list of cut intervals.\<close>

definition multiChopNodePartition :: "interval list \<Rightarrow> interval \<Rightarrow> interval list" where
  "multiChopNodePartition listOfCutpoint whole =
     (let updatedBlockList =
            sort (remdups ([fst whole, snd whole] @ concat (map (\<lambda>p. [fst p, snd p]) listOfCutpoint)))
      in zip updatedBlockList (tl updatedBlockList))"

text \<open>
  The case of two nodes: the aligned paths form one module of two blocks joined by a pair of
  dual edges, every other piece of either node a module of its own with one block of
  orientation \<open>+\<close>; every piece is registered in both indexes.
\<close>

definition register_pieces ::
  "node \<Rightarrow> interval \<Rightarrow> block graph \<Rightarrow> interval list \<Rightarrow> indexes \<Rightarrow> indexes" where
  "register_pieces n path module' pieces st =
     fold (\<lambda>element st.
             dict_assign (n, element)
               (if element = path then module' else add_node (n, element, Plus) [])
               (set_add n element st))
          pieces st"

definition nodeNodePartition ::
  "node \<Rightarrow> node \<Rightarrow> interval \<Rightarrow> interval \<Rightarrow> orientation \<Rightarrow> orientation \<Rightarrow> mask \<Rightarrow> mask
     \<Rightarrow> indexes \<Rightarrow> indexes" where
  "nodeNodePartition sourceNode destNode sourceToDestPath destToSourcePath sourceDirection
       destDirection sourceToDestArray destToSourceArray st =
     (let sourceNodeBlocks = nodePartition sourceToDestPath (snd sourceNode);
          destNodeBlocks = nodePartition destToSourcePath (snd destNode);
          module' = add_edge (destNode, destToSourcePath, destDirection)
                            (sourceNode, sourceToDestPath, sourceDirection) destToSourceArray
                     (add_edge (sourceNode, sourceToDestPath, sourceDirection)
                               (destNode, destToSourcePath, destDirection) sourceToDestArray []);
          st1 = register_pieces sourceNode sourceToDestPath module' sourceNodeBlocks st
      in register_pieces destNode destToSourcePath module' destNodeBlocks st1)"

text \<open>
  The partition of a node against modules and of modules against modules are parameters of the
  driver: functions on the indexes that may raise.
\<close>

type_synonym partitioner =
  "node \<Rightarrow> node \<Rightarrow> interval \<Rightarrow> interval \<Rightarrow> orientation \<Rightarrow> orientation \<Rightarrow> mask \<Rightarrow> mask
     \<Rightarrow> indexes \<Rightarrow> error + indexes"

text \<open>
  The dispatch on whether the two nodes are still in \<^verbatim>\<open>nodeList\<close>, reached by an alignment that
  was neither seen before nor too short.
\<close>

definition dispatch ::
  "partitioner \<Rightarrow> partitioner \<Rightarrow> node \<Rightarrow> node \<Rightarrow> interval \<Rightarrow> interval \<Rightarrow> orientation \<Rightarrow> orientation
     \<Rightarrow> mask \<Rightarrow> mask \<Rightarrow> scc_state \<Rightarrow> error + scc_state" where
  "dispatch nodeModulePartition moduleModulePartition sourceNode destNode sourceToDestPath
       destToSourcePath sourceDirection destDirection sourceToDestArray destToSourceArray st =
     (if sourceNode \<in> set (nodeList st) \<and> destNode \<in> set (nodeList st) then
        (let idx = nodeNodePartition sourceNode destNode sourceToDestPath destToSourcePath
                     sourceDirection destDirection sourceToDestArray destToSourceArray (index st);
             nodeList1 = remove1 sourceNode (nodeList st)
         in if destNode \<in> set nodeList1
            then Inr (st\<lparr>nodeList := remove1 destNode nodeList1, index := idx\<rparr>)
            else Inl (ValueError ''list.remove(x): x not in list''))
      else if sourceNode \<notin> set (nodeList st) \<and> destNode \<in> set (nodeList st) then
        (case nodeModulePartition sourceNode destNode sourceToDestPath destToSourcePath
                sourceDirection destDirection sourceToDestArray destToSourceArray (index st) of
           Inl e \<Rightarrow> Inl e
         | Inr idx \<Rightarrow> Inr (st\<lparr>nodeList := remove1 destNode (nodeList st), index := idx\<rparr>))
      else if sourceNode \<in> set (nodeList st) \<and> destNode \<notin> set (nodeList st) then
        (case nodeModulePartition destNode sourceNode destToSourcePath sourceToDestPath
                destDirection sourceDirection destToSourceArray sourceToDestArray (index st) of
           Inl e \<Rightarrow> Inl e
         | Inr idx \<Rightarrow> Inr (st\<lparr>nodeList := remove1 sourceNode (nodeList st), index := idx\<rparr>))
      else
        (case moduleModulePartition sourceNode destNode sourceToDestPath destToSourcePath
                sourceDirection destDirection sourceToDestArray destToSourceArray (index st) of
           Inl e \<Rightarrow> Inl e
         | Inr idx \<Rightarrow> Inr (st\<lparr>index := idx\<rparr>)))"

text \<open>
  One alignment of the component: the two directed edges \<^verbatim>\<open>S[source][dest][i]\<close> and
  \<^verbatim>\<open>S[dest][source][i]\<close> that an iteration of \<^verbatim>\<open>while edgeList\<close> reads and removes together.
  Each weight is a pair of a path, whose coordinates may come in descending order, and a bit
  array.  The list of alignments stands for \<^verbatim>\<open>edgeList\<close> in the order the loop takes them.
\<close>

record alignment =
  sourceNode :: node
  destNode :: node
  sourceToDestPath :: interval
  sourceToDestArray :: mask
  destToSourcePath :: interval
  destToSourceArray :: mask

text \<open>
  One iteration of \<^verbatim>\<open>while edgeList\<close>.  The counter is advanced first; an alignment whose
  sorted pair of (node, path) was visited before is skipped by \<^verbatim>\<open>continue\<close> ahead of the test
  \<^verbatim>\<open>numberOfEdges % 500 == 0\<close>; an alignment whose source path is shorter than \<open>20\<close> is
  skipped after it.  (The progress messages of a big component are not modelled.)
\<close>

definition pair_of :: "alignment \<Rightarrow> (node \<times> interval) \<times> (node \<times> interval)" where
  "pair_of e =
     (let sourceNodeAndPath = (sourceNode e, sorted_path (sourceToDestPath e));
          destNodeAndPath = (destNode e, sorted_path (destToSourcePath e))
      in sorted_pair sourceNodeAndPath destNodeAndPath)"

definition process_fresh ::
  "partitioner \<Rightarrow> partitioner \<Rightarrow> alignment \<Rightarrow> scc_state \<Rightarrow> error + scc_state" where
  "process_fresh nodeModulePartition moduleModulePartition e st =
     (let sourceDirection = (if fst (sourceToDestPath e) > snd (sourceToDestPath e) then Minus else Plus);
          destDirection = (if fst (destToSourcePath e) > snd (destToSourcePath e) then Minus else Plus);
          s2d = sorted_path (sourceToDestPath e);
          d2s = sorted_path (destToSourcePath e)
      in if snd s2d - fst s2d < 20 then Inr st
         else dispatch nodeModulePartition moduleModulePartition (sourceNode e) (destNode e)
                s2d d2s sourceDirection destDirection
                (sourceToDestArray e) (destToSourceArray e) st)"

definition scc_edge :: "partitioner \<Rightarrow> partitioner \<Rightarrow> alignment \<Rightarrow> scc_state \<Rightarrow> error + scc_state" where
  "scc_edge nodeModulePartition moduleModulePartition e st =
     (let st1 = st\<lparr>numberOfEdges := numberOfEdges st + 2\<rparr>;
          pair = pair_of e
      in if pair \<in> set (visitedEdgePair st1) then Inr st1
         else
           (let st2 = st1\<lparr>visitedEdgePair := pair # visitedEdgePair st1\<rparr>;
                st3 = (if numberOfEdges st2 mod 500 = 0
                       then st2\<lparr>index := trimShortModules (index st2)\<rparr> else st2)
            in process_fresh nodeModulePartition moduleModulePartition e st3))"

fun scc_edges ::
  "partitioner \<Rightarrow> partitioner \<Rightarrow> alignment list \<Rightarrow> scc_state \<Rightarrow> error + scc_state" where
  "scc_edges nmp mmp [] st = Inr st"
| "scc_edges nmp mmp (e # es) st =
     (case scc_edge nmp mmp e st of Inl err \<Rightarrow> Inl err | Inr st1 \<Rightarrow> scc_edges nmp mmp es st1)"

definition initial_scc_state :: "node list \<Rightarrow> scc_state" where
  "initial_scc_state nodes =
     \<lparr>nodeList = nodes, visitedEdgePair = [], numberOfEdges = 0, index = empty_indexes\<rparr>"

text \<open>
  The lines written for one component: the sorted vertex tuples of the registered modules, as
  a set; those of more than one vertex; of each, the vertices whose path is not inverted.
  (The order in which a Python set yields its elements is open; \<open>remdups\<close> fixes one.)
\<close>

definition emitted_modules :: "indexes \<Rightarrow> block list list" where
  "emitted_modules st =
     (let modules = remdups (map (\<lambda>m_graph. sort (nodes_of m_graph))
                                 (map snd (nodePathToModuleDic st)));
          modules = filter (\<lambda>m. length m > 1) modules
      in map (\<lambda>module'. filter (\<lambda>(name, path, direction). fst path \<le> snd path) module') modules)"

text \<open>The body of \<^verbatim>\<open>for cc in ...\<close>: all alignments, the last trimming, the output.\<close>

definition scc_main ::
  "partitioner \<Rightarrow> partitioner \<Rightarrow> node list \<Rightarrow> alignment list \<Rightarrow> error + block list list" where
  "scc_main nmp mmp nodes edges =
     (case scc_edges nmp mmp edges (initial_scc_state nodes) of
        Inl err \<Rightarrow> Inl err
      | Inr st \<Rightarrow> Inr (emitted_modules (trimShortModules (index st))))"

text \<open>The alignment and the nodes of the examples: the source path leaves a piece of length 4.\<close>

definition example_nodeA :: node where
  "example_nodeA = (''A'', (1, 105))"

definition example_nodeB :: node where
  "example_nodeB = (''B'', (1, 101))"

definition example_alignment :: alignment where
  "example_alignment =
     \<lparr>sourceNode = example_nodeA, destNode = example_nodeB,
      sourceToDestPath = (5, 105), sourceToDestArray = replicate 101 (CHR ''1''),
      destToSourcePath = (1, 101), destToSourceArray = replicate 101 (CHR ''1'')\<rparr>"

definition no_partition :: partitioner where
  "no_partition = (\<lambda>a b c d e f g h st. Inl (ValueError ''not reached''))"

text \<open>The indexes after the example alignment was processed as a pair of two nodes.\<close>

definition example_indexes :: indexes where
  "example_indexes =
     nodeNodePartition example_nodeA example_nodeB (5, 105) (1, 101) Plus Plus
       (replicate 101 (CHR ''1'')) (replicate 101 (CHR ''1'')) empty_indexes"

text \<open>
  Two modules with the same two blocks and the same dual edges, a piece of 19 letters of
  \<open>B\<close> aligned with a piece of 21 letters of \<open>A\<close>: in the first the short block was
  inserted first, in the second the long one.
\<close>

definition short_first_module :: "block graph" where
  "short_first_module =
     add_edge ((''A'', (1, 105)), (1, 22), Plus) ((''B'', (1, 101)), (1, 20), Plus)
         ''111111111111111111111''
       (add_edge ((''B'', (1, 101)), (1, 20), Plus) ((''A'', (1, 105)), (1, 22), Plus)
          ''111111111011111111101'' [])"

definition long_first_module :: "block graph" where
  "long_first_module =
     add_edge ((''B'', (1, 101)), (1, 20), Plus) ((''A'', (1, 105)), (1, 22), Plus)
         ''111111111011111111101''
       (add_edge ((''A'', (1, 105)), (1, 22), Plus) ((''B'', (1, 101)), (1, 20), Plus)
          ''111111111111111111111'' [])"

text \<open>A module of two blocks, the second with an inverted path.\<close>

definition inverted_module :: "block graph" where
  "inverted_module =
     add_edge ((''B'', (1, 101)), (60, 50), Minus) ((''A'', (1, 105)), (1, 51), Plus) ''11111''
       (add_edge ((''A'', (1, 105)), (1, 51), Plus) ((''B'', (1, 101)), (60, 50), Minus) ''11111'' [])"

subsection \<open>\<^verbatim>\<open>blastToDf\<close>\<close>

text \<open>
  A row of the data frame of alignments, with the columns \<^verbatim>\<open>blastToDf\<close> reads.  The columns
  are all present (\<^verbatim>\<open>dropna\<close> has nothing to remove).
\<close>

record blast_row =
  queryAccVer :: string
  subjectAccVer :: string
  alignmentLength :: int
  qStart :: int
  qEnd :: int
  sStart :: int
  sEnd :: int
  bitScore :: int
  qSeq :: mask
  sSeq :: mask

text \<open>A row with the columns \<^verbatim>\<open>qPair\<close>, \<^verbatim>\<open>sPair\<close>, \<^verbatim>\<open>qEdge\<close> and \<^verbatim>\<open>sEdge\<close> added.\<close>

record edge_row = blast_row +
  qPair :: interval
  sPair :: interval
  qEdge :: "interval \<times> mask"
  sEdge :: "interval \<times> mask"

definition add_pairs :: "blast_row \<Rightarrow> edge_row" where
  "add_pairs r =
     blast_row.extend r
       (edge_row.fields (qStart r, qEnd r) (sStart r, sEnd r)
          ((qStart r, qEnd r), qSeq r) ((sStart r, sEnd r), sSeq r))"

text \<open>
  The threshold, the constant and the products formed from them are floating-point numbers.
  Their arithmetic is a parameter of the model: the numbers are of a type \<open>'f\<close>, and a record
  gives the conversion of an integer column to \<open>'f\<close>, the product, the sum, the conversion
  \<^verbatim>\<open>astype(int)\<close> and the comparison \<^verbatim>\<open>>=\<close>.  What is proved for every such record holds
  for the double precision of NumPy.
\<close>

record 'f arithmetic =
  from_int :: "int \<Rightarrow> 'f"
  times :: "'f \<Rightarrow> 'f \<Rightarrow> 'f"
  plus :: "'f \<Rightarrow> 'f \<Rightarrow> 'f"
  astype_int :: "'f \<Rightarrow> int"
  greater_eq :: "'f \<Rightarrow> 'f \<Rightarrow> bool"

text \<open>The column \<^verbatim>\<open>scoreThreshold\<close>: \<^verbatim>\<open>((qEnd - qStart) * constant + 3).astype(int)\<close>.\<close>

definition scoreThreshold :: "'f arithmetic \<Rightarrow> 'f \<Rightarrow> 'a blast_row_scheme \<Rightarrow> int" where
  "scoreThreshold ar constant r =
     astype_int ar (plus ar (times ar (from_int ar (qEnd r - qStart r)) constant) (from_int ar 3))"

text \<open>
  The two row filters of lines 103 and 106:
  \<^verbatim>\<open>df.subjectAccVer != df.queryAccVer\<close> and \<^verbatim>\<open>df.bitScore >= threshold*df.scoreThreshold\<close>.
\<close>

definition blastToDf :: "'f arithmetic \<Rightarrow> blast_row list \<Rightarrow> 'f \<Rightarrow> 'f \<Rightarrow> edge_row list" where
  "blastToDf ar df threshold constant =
     (let df1 = map add_pairs df;
          df2 = filter (\<lambda>r. subjectAccVer r \<noteq> queryAccVer r) df1
      in filter (\<lambda>r. greater_eq ar (from_int ar (bitScore r))
                         (times ar threshold (from_int ar (scoreThreshold ar constant r)))) df2)"

text \<open>
  Exact arithmetic on the rationals, with \<^verbatim>\<open>astype(int)\<close> truncating towards zero; and the
  default of \<^verbatim>\<open>constant\<close> and of the command line option \<^verbatim>\<open>--threshold\<close>.
\<close>

definition exact_arithmetic :: "rat arithmetic" where
  "exact_arithmetic =
     \<lparr>from_int = of_int, times = (\<lambda>x y. x * y), plus = (\<lambda>x y. x + y),
      astype_int = (\<lambda>x. if 0 \<le> x then \<lfloor>x\<rfloor> else \<lceil>x\<rceil>),
      greater_eq = (\<lambda>x y. y \<le> x)\<rparr>"

definition default_constant :: rat where
  "default_constant = 16446838 / 10000000"

definition default_threshold :: rat where
  "default_threshold = 4 / 10"

text \<open>
  The cut as the specification words it, on the alignment length: the bit score is at least
  the threshold times \<open>1.6446838 \<cdot> align_len + 3\<close>.
\<close>

definition spec_bitscore_cut :: "rat \<Rightarrow> 'a blast_row_scheme \<Rightarrow> bool" where
  "spec_bitscore_cut threshold r \<longleftrightarrow>
     of_int (bitScore r) \<ge> threshold * (16446838 / 10000000 * of_int (alignmentLength r) + 3)"

text \<open>An alignment without gaps of 101 columns, with bit score 67.\<close>

definition example_row :: blast_row where
  "example_row =
     \<lparr>queryAccVer = ''A'', subjectAccVer = ''B'', alignmentLength = 101, qStart = 1, qEnd = 101,
      sStart = 1, sEnd = 101, bitScore = 67,
      qSeq = replicate 101 (CHR ''1''), sSeq = replicate 101 (CHR ''1'')\<rparr>"

section \<open>Properties of the bit-array slicing primitive\<close>

lemma length_compress_count: "length (compress_count item xs i) = count_list xs item"
  by (induction xs arbitrary: i) auto

lemma compress_count_nth:
  "n < count_list xs item \<Longrightarrow>
     i \<le> compress_count item xs i ! n \<and> compress_count item xs i ! n - i < length xs \<and>
     xs ! (compress_count item xs i ! n - i) = item \<and>
     count_list (take (compress_count item xs i ! n - i) xs) item = n"
proof (induction xs arbitrary: i n)
  case Nil
  then show ?case by simp
next
  case (Cons x xs)
  show ?case
  proof (cases "item = x")
    case True
    show ?thesis
    proof (cases n)
      case 0
      then show ?thesis using True by simp
    next
      case (Suc m)
      then have m: "m < count_list xs item" using Cons.prems True by simp
      define p where "p = compress_count item xs (Suc i) ! m - Suc i"
      from Cons.IH[OF m, of "Suc i"] have ih: "Suc i \<le> compress_count item xs (Suc i) ! m"
        "p < length xs" "xs ! p = item" "count_list (take p xs) item = m"
        by (simp_all add: p_def)
      have eq: "compress_count item xs (Suc i) ! m - i = Suc p"
        using ih(1) by (simp add: p_def)
      show ?thesis using True Suc ih eq by simp
    qed
  next
    case False
    then have m: "n < count_list xs item" using Cons.prems by simp
    define p where "p = compress_count item xs (Suc i) ! n - Suc i"
    from Cons.IH[OF m, of "Suc i"] have ih: "Suc i \<le> compress_count item xs (Suc i) ! n"
      "p < length xs" "xs ! p = item" "count_list (take p xs) item = n"
      by (simp_all add: p_def)
    have eq: "compress_count item xs (Suc i) ! n - i = Suc p"
      using ih(1) by (simp add: p_def)
    show ?thesis using False ih eq by simp
  qed
qed

lemma count_list_take_mono:
  assumes "i \<le> j"
  shows "count_list (take i xs) item \<le> count_list (take j xs) item"
proof -
  have "take j xs = take i xs @ take (j - i) (drop i xs)"
    using assms by (metis le_add_diff_inverse take_add)
  then show ?thesis by simp
qed

lemma choppedIndex_in_range:
  assumes "1 \<le> k" and "k \<le> int (count1 m)"
  shows "choppedIndex m k = Inr (int (Suc (compress_count (CHR ''1'') m 0 ! nat (k - 1))))"
proof -
  have "count_list m (CHR ''1'') \<le> length m" by (rule count_le_length)
  then have len: "k \<le> int (length m)" using assms(2) by (simp add: count1_def)
  have no_raise: "\<not> (k - 1 < 0 \<or> (sys_maxsize < k - 1 \<and> int (length m) \<le> sys_maxsize))"
    using assms(1) len by linarith
  have idx: "nat (k - 1) < count_list m (CHR ''1'')"
    using assms unfolding count1_def by linarith
  have k0: "k \<noteq> 0" using assms(1) by simp
  show ?thesis
    unfolding choppedIndex_def nth_item_def Let_def
    using no_raise idx k0 by (simp add: length_compress_count)
qed

text \<open>
  Claim C2.  For a bit array \<open>mask\<close> and \<open>1 \<le> k \<le> popcount mask\<close>, \<open>choppedIndex mask k\<close>
  returns the smallest prefix length \<open>j\<close> whose first \<open>j\<close> characters contain exactly \<open>k\<close> ones:
  the prefix of length \<open>j\<close> has \<open>k\<close> ones, every shorter prefix has fewer, and position \<open>j - 1\<close>
  holds the \<open>k\<close>-th one.  Moreover \<open>choppedIndex mask 0 = choppedIndex mask 1\<close>.
\<close>

theorem choppedIndex_smallest_prefix:
  "(1 \<le> k \<and> k \<le> int (count1 bits) \<longrightarrow>
      (\<exists>j. choppedIndex bits k = Inr (int j) \<and> 0 < j \<and> j \<le> length bits \<and>
           count1 (take j bits) = nat k \<and>
           (\<forall>i<j. count1 (take i bits) < nat k) \<and>
           bits ! (j - 1) = CHR ''1'')) \<and>
   choppedIndex bits 0 = choppedIndex bits 1"
proof (intro conjI impI)
  assume k: "1 \<le> k \<and> k \<le> int (count1 bits)"
  define n where "n = nat (k - 1)"
  define p where "p = compress_count (CHR ''1'') bits 0 ! n"
  have n: "n < count_list bits (CHR ''1'')" using k unfolding n_def count1_def by linarith
  have nk: "Suc n = nat k" "n < nat k" using k unfolding n_def by linarith+
  from compress_count_nth[OF n, of 0]
  have p: "p < length bits" "bits ! p = CHR ''1''" "count_list (take p bits) (CHR ''1'') = n"
    by (simp_all add: p_def)
  have ret: "choppedIndex bits k = Inr (int (Suc p))"
    using choppedIndex_in_range[of k bits] k by (simp add: p_def n_def)
  have full: "count1 (take (Suc p) bits) = nat k"
    using p nk by (simp add: count1_def take_Suc_conv_app_nth)
  have less: "count1 (take i bits) < nat k" if "i < Suc p" for i
  proof -
    have "count_list (take i bits) (CHR ''1'') \<le> count_list (take p bits) (CHR ''1'')"
      using that by (intro count_list_take_mono) simp
    then show ?thesis using p(3) nk by (simp add: count1_def)
  qed
  show "\<exists>j. choppedIndex bits k = Inr (int j) \<and> 0 < j \<and> j \<le> length bits \<and>
           count1 (take j bits) = nat k \<and>
           (\<forall>i<j. count1 (take i bits) < nat k) \<and>
           bits ! (j - 1) = CHR ''1''"
    using ret full less p by (intro exI[of _ "Suc p"]) simp
next
  show "choppedIndex bits 0 = choppedIndex bits 1"
    by (simp add: choppedIndex_def)
qed

theorem choppedIndex_smallest_prefix_witness:
  "(1::int) \<le> 2 \<and> (2::int) \<le> int (count1 ''01010'') \<and>
   (\<exists>j. choppedIndex ''01010'' 2 = Inr (int j) \<and> 0 < j \<and> j \<le> length ''01010'' \<and>
        count1 (take j ''01010'') = nat 2 \<and>
        (\<forall>i<j. count1 (take i ''01010'') < nat 2) \<and>
        ''01010'' ! (j - 1) = CHR ''1'')"
proof -
  have h: "(1::int) \<le> 2 \<and> (2::int) \<le> int (count1 ''01010'')"
    by (simp add: count1_def)
  from choppedIndex_smallest_prefix[of 2 "''01010''"] h show ?thesis by blast
qed

text \<open>
  Claim C3, as stated, says that \<open>choppedIndex mask k\<close> raises when \<open>k\<close> exceeds the popcount.
  The code does not: the exhausted iterator yields the default \<open>-1\<close> and the function returns
  \<open>0\<close>.  The mask \<open>101\<close> has two ones; asking for the third returns \<open>0\<close>.
\<close>

theorem choppedIndex_beyond_popcount_counterexample:
  "int (count1 ''101'') < 3 \<and> choppedIndex ''101'' 3 = Inr 0"
  by (simp add: choppedIndex_def nth_item_def count1_def sys_maxsize_def)

text \<open>
  Claim C3, amended.  For every bit array \<open>mask\<close> and every \<open>k\<close> strictly greater than its
  popcount and at most \<open>sys.maxsize + 1 = 2\<^sup>6\<^sup>3\<close>, \<open>choppedIndex mask k\<close> returns \<open>0\<close> and raises
  nothing.  For a greater \<open>k\<close> the start \<open>k - 1\<close> is beyond what \<^verbatim>\<open>islice\<close> accepts, and
  \<open>choppedIndex\<close> raises \<^verbatim>\<open>ValueError("offset is negative")\<close>.
\<close>

theorem choppedIndex_beyond_popcount:
  "(int (count1 bits) < k \<and> k \<le> 9223372036854775808 \<longrightarrow> choppedIndex bits k = Inr 0) \<and>
   (9223372036854775808 < k \<and> int (length bits) \<le> 9223372036854775807 \<longrightarrow>
      choppedIndex bits k = Inl (ValueError ''offset is negative''))"
proof (intro conjI impI)
  assume a: "int (count1 bits) < k \<and> k \<le> 9223372036854775808"
  then have k0: "k \<noteq> 0" and k1: "\<not> k - 1 < 0" by linarith+
  have k2: "\<not> sys_maxsize < k - 1" using a by (simp add: sys_maxsize_def)
  have k3: "\<not> nat (k - 1) < count_list bits (CHR ''1'')"
    using a unfolding count1_def by linarith
  show "choppedIndex bits k = Inr 0"
    unfolding choppedIndex_def nth_item_def Let_def
    using k0 k1 k2 k3 by (simp add: length_compress_count)
next
  assume a: "9223372036854775808 < k \<and> int (length bits) \<le> 9223372036854775807"
  then have k0: "k \<noteq> 0" by linarith
  have k2: "sys_maxsize < k - 1 \<and> int (length bits) \<le> sys_maxsize"
    using a by (simp add: sys_maxsize_def)
  show "choppedIndex bits k = Inl (ValueError ''offset is negative'')"
    unfolding choppedIndex_def nth_item_def Let_def
    using k0 k2 by simp
qed

theorem choppedIndex_beyond_popcount_witness:
  "int (count1 ''0110'') < 5 \<and> (5::int) \<le> 9223372036854775808
   \<and> choppedIndex ''0110'' 5 = Inr 0
   \<and> (9223372036854775808::int) < 9223372036854775809
   \<and> int (length ''101'') \<le> 9223372036854775807
   \<and> choppedIndex ''101'' 9223372036854775809 = Inl (ValueError ''offset is negative'')"
proof -
  have h1: "int (count1 ''0110'') < 5 \<and> (5::int) \<le> 9223372036854775808"
    by (simp add: count1_def)
  have h2: "(9223372036854775808::int) < 9223372036854775809
            \<and> int (length ''101'') \<le> 9223372036854775807"
    by simp
  from choppedIndex_beyond_popcount[of "''0110''" 5]
    choppedIndex_beyond_popcount[of "''101''" 9223372036854775809] h1 h2
  show ?thesis by simp
qed

section \<open>\<^verbatim>\<open>signReverse\<close> is an involution\<close>

lemma update_fresh: "k \<notin> fst ` set xs \<Longrightarrow> AList.update k v xs = xs @ [(k, v)]"
  by (induction xs) auto

lemma update_at: "k \<notin> fst ` set xs \<Longrightarrow> AList.update k v (xs @ (k, v0) # ys) = xs @ (k, v) # ys"
  by (induction xs) auto

lemma map_of_at: "k \<notin> fst ` set xs \<Longrightarrow> map_of (xs @ (k, v0) # ys) k = Some v0"
  by (induction xs) auto

lemma map_of_fresh: "k \<notin> fst ` set xs \<Longrightarrow> map_of xs k = None"
  by (induction xs) auto

lemma fold_add_node_fresh:
  "distinct ns \<Longrightarrow> set ns \<inter> fst ` set G = {} \<Longrightarrow> fold add_node ns G = G @ map (\<lambda>n. (n, [])) ns"
proof (induction ns arbitrary: G)
  case Nil then show ?case by simp
next
  case (Cons n ns)
  have "add_node n G = G @ [(n, [])]" using Cons.prems by (auto simp: add_node_def nodes_of_def)
  moreover have "fold add_node ns (G @ [(n, [])]) = (G @ [(n, [])]) @ map (\<lambda>n. (n, [])) ns"
    using Cons.prems by (intro Cons.IH) auto
  ultimately show ?case by simp
qed

lemma add_edge_key_at:
  assumes "G = pre @ (u, acc) # post" and "u \<notin> fst ` set pre" and "v \<in> fst ` set G"
  shows "add_edge_key u v k w G = pre @ (u, step_succ v k w acc) # post"
proof -
  have u: "u \<in> set (nodes_of G)" using assms(1) by (simp add: nodes_of_def)
  have v: "v \<in> set (nodes_of G)" using assms(3) by (simp add: nodes_of_def)
  have G1: "add_node v (add_node u G) = G" using u v by (simp add: add_node_def)
  have s: "succ_of G u = acc" using assms(1,2) by (simp add: succ_of_def map_of_at del: map_of_append)
  show ?thesis
    unfolding add_edge_key_def G1 Let_def keydict_of_def s step_succ_def
    using assms(1,2) by (simp add: update_at)
qed

lemma fold_keys_existing:
  assumes "v \<notin> fst ` set accn" and "distinct (map fst kd)" and "fst ` set kd \<inter> fst ` set acck = {}"
  shows "fold (\<lambda>(k, w). step_succ v k (rev w)) kd (accn @ [(v, acck)]) = accn @ [(v, acck @ map_keydict kd)]"
  using assms(2,3)
proof (induction kd arbitrary: acck)
  case Nil then show ?case by (simp add: map_keydict_def)
next
  case (Cons p kd)
  obtain k w where p: "p = (k, w)" by (cases p)
  have k: "k \<notin> fst ` set acck" using Cons.prems p by auto
  have st: "step_succ v k (rev w) (accn @ [(v, acck)]) = accn @ [(v, acck @ [(k, rev w)])]"
    using assms(1) k by (simp add: step_succ_def map_of_at update_at update_fresh del: map_of_append)
  have "fold (\<lambda>(k, w). step_succ v k (rev w)) kd (accn @ [(v, acck @ [(k, rev w)])])
        = accn @ [(v, (acck @ [(k, rev w)]) @ map_keydict kd)]"
    using Cons.prems p by (intro Cons.IH) auto
  then show ?case using st p by (simp add: map_keydict_def)
qed

lemma fold_keys_new:
  assumes "v \<notin> fst ` set accn" and "distinct (map fst kd)" and "kd \<noteq> []"
  shows "fold (\<lambda>(k, w). step_succ v k (rev w)) kd accn = accn @ [(v, map_keydict kd)]"
proof -
  obtain k w kd' where kd: "kd = (k, w) # kd'" using assms(3) by (cases kd) auto
  have st: "step_succ v k (rev w) accn = accn @ [(v, [(k, rev w)])]"
    using assms(1) by (simp add: step_succ_def map_of_fresh update_fresh)
  have "fold (\<lambda>(k, w). step_succ v k (rev w)) kd' (accn @ [(v, [(k, rev w)])])
        = accn @ [(v, [(k, rev w)] @ map_keydict kd')]"
    using assms(1,2) kd by (intro fold_keys_existing) auto
  then show ?thesis using st kd by (simp add: map_keydict_def)
qed

lemma fold_succ:
  assumes "inj f" and "distinct (map fst nb)"
    and "\<forall>(v, kd) \<in> set nb. kd \<noteq> [] \<and> distinct (map fst kd)"
    and "f ` fst ` set nb \<inter> fst ` set accn = {}"
  shows "fold (\<lambda>(v, kd). fold (\<lambda>(k, w). step_succ (f v) k (rev w)) kd) nb accn = accn @ map_succ f nb"
  using assms(2,3,4)
proof (induction nb arbitrary: accn)
  case Nil then show ?case by (simp add: map_succ_def)
next
  case (Cons p nb)
  obtain v kd where p: "p = (v, kd)" by (cases p)
  have fv: "f v \<notin> fst ` set accn" using Cons.prems(3) p by auto
  have st: "fold (\<lambda>(k, w). step_succ (f v) k (rev w)) kd accn = accn @ [(f v, map_keydict kd)]"
    using fv Cons.prems(2) p by (intro fold_keys_new) auto
  have disj: "f ` fst ` set nb \<inter> fst ` set (accn @ [(f v, map_keydict kd)]) = {}"
  proof -
    have "f v \<notin> f ` fst ` set nb"
      using Cons.prems(1) p assms(1) by (auto simp: inj_eq) (metis fst_conv image_eqI)
    then show ?thesis using Cons.prems(3) p by auto
  qed
  have "fold (\<lambda>(v, kd). fold (\<lambda>(k, w). step_succ (f v) k (rev w)) kd) nb (accn @ [(f v, map_keydict kd)])
        = (accn @ [(f v, map_keydict kd)]) @ map_succ f nb"
    using Cons.prems(1,2) disj by (intro Cons.IH) auto
  then show ?case using st p by (simp add: map_succ_def)
qed

lemma fold_concat_list: "fold g (concat xss) = fold (fold g) xss"
  by (induction xss) auto

lemma get_weight_wf:
  assumes "wf_graph M" and "(u, nb) \<in> set M" and "(v, kd) \<in> set nb" and "(k, w) \<in> set kd"
  shows "get_weight M u v k = Some w"
proof -
  have d: "distinct (map fst M)" "distinct (map fst nb)" "distinct (map fst kd)"
    using assms by (auto simp: wf_graph_def)
  have "map_of M u = Some nb" using d(1) assms(2) by simp
  moreover have "map_of nb v = Some kd" using d(2) assms(3) by simp
  moreover have "map_of kd k = Some w" using d(3) assms(4) by simp
  ultimately show ?thesis by (simp add: get_weight_def keydict_of_def succ_of_def)
qed

lemma sr_fold_keys:
  assumes "\<forall>(k, w) \<in> set kd. get_weight M u v k = Some w"
  shows "fold (sr_step M) (map (\<lambda>(k, w). (u, v, k)) kd) g
         = fold (\<lambda>(k, w). add_edge_key (flipNode u) (flipNode v) k (rev w)) kd g"
  using assms by (induction kd arbitrary: g) (auto simp: sr_step_def)

lemma sr_fold_succ:
  assumes "\<forall>(v, kd) \<in> set nb. \<forall>(k, w) \<in> set kd. get_weight M u v k = Some w"
  shows "fold (sr_step M) (concat (map (\<lambda>(v, kd). map (\<lambda>(k, w). (u, v, k)) kd) nb)) g
         = fold (\<lambda>(v, kd). fold (\<lambda>(k, w). add_edge_key (flipNode u) (flipNode v) k (rev w)) kd) nb g"
  using assms
proof (induction nb arbitrary: g)
  case Nil then show ?case by simp
next
  case (Cons p nb)
  obtain v kd where p: "p = (v, kd)" by (cases p)
  have "\<forall>(k, w) \<in> set kd. get_weight M u v k = Some w" using Cons.prems p by auto
  from sr_fold_keys[OF this] show ?case using Cons p by simp
qed

lemma sr_fold_graph:
  assumes "\<forall>(u, nb) \<in> set M'. \<forall>(v, kd) \<in> set nb. \<forall>(k, w) \<in> set kd. get_weight M u v k = Some w"
  shows "fold (sr_step M) (edges_of M') g
         = fold (\<lambda>(u, nb). fold (\<lambda>(v, kd). fold (\<lambda>(k, w). add_edge_key (flipNode u) (flipNode v) k (rev w)) kd) nb) M' g"
  using assms
proof (induction M' arbitrary: g)
  case Nil then show ?case by (simp add: edges_of_def)
next
  case (Cons p M')
  obtain u nb where p: "p = (u, nb)" by (cases p)
  have a: "\<forall>(v, kd) \<in> set nb. \<forall>(k, w) \<in> set kd. get_weight M u v k = Some w" using Cons.prems p by auto
  have b: "fold (sr_step M) (edges_of M') g' = fold (\<lambda>(u, nb). fold (\<lambda>(v, kd). fold (\<lambda>(k, w). add_edge_key (flipNode u) (flipNode v) k (rev w)) kd) nb) M' g'" for g'
    using Cons.prems by (intro Cons.IH) auto
  have e: "edges_of (p # M') = concat (map (\<lambda>(v, kd). map (\<lambda>(k, w). (u, v, k)) kd) nb) @ edges_of M'"
    by (simp add: edges_of_def p)
  show ?case unfolding e using sr_fold_succ[OF a] b p by simp
qed

lemma keys_at:
  assumes "v \<in> fst ` set (pre @ (u, acc) # post)"
  shows "v \<in> fst ` set (pre @ (u, acc') # post)"
  using assms by auto

lemma fold_keys_at:
  assumes "u \<notin> fst ` set pre" and "v \<in> fst ` set (pre @ (u, acc) # post)"
  shows "fold (\<lambda>(k, w). add_edge_key u v k (rev w)) kd (pre @ (u, acc) # post)
         = pre @ (u, fold (\<lambda>(k, w). step_succ v k (rev w)) kd acc) # post"
  using assms(2)
proof (induction kd arbitrary: acc)
  case Nil then show ?case by simp
next
  case (Cons p kd)
  obtain k w where p: "p = (k, w)" by (cases p)
  have st: "add_edge_key u v k (rev w) (pre @ (u, acc) # post) = pre @ (u, step_succ v k (rev w) acc) # post"
    using assms(1) Cons.prems by (intro add_edge_key_at) auto
  have "v \<in> fst ` set (pre @ (u, step_succ v k (rev w) acc) # post)"
    using Cons.prems by (rule keys_at)
  from Cons.IH[OF this] show ?case using st p by simp
qed

lemma fold_succ_at:
  assumes "u \<notin> fst ` set pre" and "\<forall>(v, kd) \<in> set nb. f v \<in> fst ` set (pre @ (u, acc) # post)"
  shows "fold (\<lambda>(v, kd). fold (\<lambda>(k, w). add_edge_key u (f v) k (rev w)) kd) nb (pre @ (u, acc) # post)
         = pre @ (u, fold (\<lambda>(v, kd). fold (\<lambda>(k, w). step_succ (f v) k (rev w)) kd) nb acc) # post"
  using assms(2)
proof (induction nb arbitrary: acc)
  case Nil then show ?case by simp
next
  case (Cons p nb)
  obtain v kd where p: "p = (v, kd)" by (cases p)
  have v: "f v \<in> fst ` set (pre @ (u, acc) # post)" using Cons.prems p by auto
  define acc' where "acc' = fold (\<lambda>(k, w). step_succ (f v) k (rev w)) kd acc"
  have st: "fold (\<lambda>(k, w). add_edge_key u (f v) k (rev w)) kd (pre @ (u, acc) # post) = pre @ (u, acc') # post"
    unfolding acc'_def using assms(1) v by (rule fold_keys_at)
  have "\<forall>(v, kd) \<in> set nb. f v \<in> fst ` set (pre @ (u, acc') # post)"
    using Cons.prems by auto
  from Cons.IH[OF this] show ?case using st p by (simp add: acc'_def)
qed

lemma map_graph_keys: "fst ` set (map_graph f G) = f ` fst ` set G"
  by (force simp: map_graph_def)

lemma sr_build:
  assumes "inj f" and "distinct (map fst (done @ todo))"
    and "\<forall>(u, nb) \<in> set todo. distinct (map fst nb) \<and>
        (\<forall>(v, kd) \<in> set nb. v \<in> fst ` set (done @ todo) \<and> kd \<noteq> [] \<and> distinct (map fst kd))"
  shows "fold (\<lambda>(u, nb). fold (\<lambda>(v, kd). fold (\<lambda>(k, w). add_edge_key (f u) (f v) k (rev w)) kd) nb) todo
           (map_graph f done @ map (\<lambda>n. (f n, [])) (map fst todo))
         = map_graph f (done @ todo)"
  using assms(2,3)
proof (induction todo arbitrary: "done")
  case Nil then show ?case by simp
next
  case (Cons p todo)
  obtain u nb where p: "p = (u, nb)" by (cases p)
  let ?pre = "map_graph f done"
  let ?post = "map (\<lambda>n. (f n, [])) (map fst todo)"
  have fu: "f u \<notin> fst ` set ?pre"
  proof -
    have "u \<notin> fst ` set done" using Cons.prems(1) p by auto
    then show ?thesis using assms(1) unfolding map_graph_keys by (simp add: inj_image_mem_iff)
  qed
  have keys: "fst ` set (?pre @ (f u, []) # ?post) = f ` fst ` set (done @ p # todo)"
    by (simp add: image_Un map_graph_keys p image_image)
  have nbk: "\<forall>(v, kd) \<in> set nb. f v \<in> fst ` set (?pre @ (f u, []) # ?post)"
    unfolding keys using Cons.prems(2) p by auto
  have step1: "fold (\<lambda>(v, kd). fold (\<lambda>(k, w). add_edge_key (f u) (f v) k (rev w)) kd) nb (?pre @ (f u, []) # ?post)
        = ?pre @ (f u, fold (\<lambda>(v, kd). fold (\<lambda>(k, w). step_succ (f v) k (rev w)) kd) nb []) # ?post"
    using fu nbk by (rule fold_succ_at)
  have step2: "fold (\<lambda>(v, kd). fold (\<lambda>(k, w). step_succ (f v) k (rev w)) kd) nb [] = [] @ map_succ f nb"
    using assms(1) Cons.prems(2) p by (intro fold_succ) auto
  have shape: "?pre @ (f u, map_succ f nb) # ?post = map_graph f (done @ [p]) @ ?post"
    by (simp add: map_graph_def p)
  let ?F = "\<lambda>(u, nb). fold (\<lambda>(v, kd). fold (\<lambda>(k, w). add_edge_key (f u) (f v) k (rev w)) kd) nb"
  have ih: "fold ?F todo (map_graph f (done @ [p]) @ ?post) = map_graph f ((done @ [p]) @ todo)"
    using Cons.prems by (intro Cons.IH) auto
  have start: "map_graph f done @ map (\<lambda>n. (f n, [])) (map fst (p # todo)) = ?pre @ (f u, []) # ?post"
    by (simp add: p)
  have "fold ?F (p # todo) (?pre @ (f u, []) # ?post)
        = fold ?F todo (fold (\<lambda>(v, kd). fold (\<lambda>(k, w). add_edge_key (f u) (f v) k (rev w)) kd) nb (?pre @ (f u, []) # ?post))"
    by (simp add: p)
  also have "\<dots> = fold ?F todo (?pre @ (f u, map_succ f nb) # ?post)"
    by (simp only: step1 step2 append_Nil)
  also have "\<dots> = fold ?F todo (map_graph f (done @ [p]) @ ?post)"
    by (simp only: shape)
  also have "\<dots> = map_graph f ((done @ [p]) @ todo)"
    by (rule ih)
  finally show ?case unfolding start by simp
qed

lemma inj_flipNode: "inj flipNode"
proof (rule injI)
  fix x y :: block assume "flipNode x = flipNode y"
  then show "x = y"
    by (cases x, cases y) (auto simp: flipNode_def elim: flipSign.elims)
qed

lemma signReverse_map_graph:
  assumes "wf_graph M"
  shows "signReverse M = map_graph flipNode M"
proof -
  have d: "distinct (map flipNode (map fst M))"
    using assms inj_flipNode by (simp add: wf_graph_def distinct_map inj_on_subset[OF _ subset_UNIV] del: map_map)
  have G0: "fold add_node (map flipNode (nodes_of M)) [] = map (\<lambda>n. (flipNode n, [])) (map fst M)"
    using fold_add_node_fresh[OF d [unfolded nodes_of_def[symmetric]], of "[]"]
    by (simp add: nodes_of_def comp_def)
  have w: "\<forall>(u, nb) \<in> set M. \<forall>(v, kd) \<in> set nb. \<forall>(k, w) \<in> set kd. get_weight M u v k = Some w"
    using get_weight_wf[OF assms] by auto
  have b: "fold (\<lambda>(u, nb). fold (\<lambda>(v, kd). fold (\<lambda>(k, w). add_edge_key (flipNode u) (flipNode v) k (rev w)) kd) nb) M
           (map_graph flipNode [] @ map (\<lambda>n. (flipNode n, [])) (map fst M)) = map_graph flipNode ([] @ M)"
    using assms inj_flipNode by (intro sr_build) (auto simp: wf_graph_def)
  show ?thesis
    unfolding signReverse_def Let_def G0 sr_step_def[symmetric] sr_fold_graph[OF w]
    using b by (simp add: map_graph_def)
qed

lemma nodes_map_graph: "nodes_of (map_graph f G) = map f (nodes_of G)"
  by (simp add: nodes_of_def map_graph_def case_prod_beta comp_def)

lemma map_concat_map: "map g (concat (map h xs)) = concat (map (\<lambda>x. map g (h x)) xs)"
  by (induction xs) auto

lemma edge_weights_map_graph:
  "edge_weights (map_graph f G) = map (\<lambda>(s, d, i, w). (f s, f d, i, rev w)) (edge_weights G)"
  unfolding edge_weights_def map_graph_def map_succ_def map_keydict_def
  by (simp add: map_concat comp_def case_prod_beta)

lemma edges_of_map_graph:
  "edges_of (map_graph f G) = map (\<lambda>(s, d, i). (f s, f d, i)) (edges_of G)"
  unfolding edges_of_def map_graph_def map_succ_def map_keydict_def
  by (simp add: map_concat comp_def case_prod_beta)

lemma wf_map_graph:
  assumes "inj f" and "wf_graph G"
  shows "wf_graph (map_graph f G)"
proof -
  have k: "map fst (map_graph f G) = map f (map fst G)"
    by (simp add: map_graph_def case_prod_beta comp_def)
  have ks: "map fst (map_succ f nb) = map f (map fst nb)" for nb
    by (simp add: map_succ_def case_prod_beta comp_def)
  have kk: "map fst (map_keydict kd) = map fst kd" for kd
    by (simp add: map_keydict_def case_prod_beta comp_def)
  have inj: "inj_on f A" for A using assms(1) by (rule inj_on_subset) simp
  show ?thesis
    unfolding wf_graph_def k
  proof (intro conjI ballI)
    show "distinct (map f (map fst G))"
      using assms(2) inj by (simp add: wf_graph_def distinct_map del: map_map)
  next
    fix x assume "x \<in> set (map_graph f G)"
    then obtain u nb where x: "x = (f u, map_succ f nb)" and m: "(u, nb) \<in> set G"
      by (auto simp: map_graph_def)
    have nb: "distinct (map fst nb)" "\<forall>(v, kd) \<in> set nb. v \<in> set (map fst G) \<and> kd \<noteq> [] \<and> distinct (map fst kd)"
      using assms(2) m by (auto simp: wf_graph_def)
    have "distinct (map fst (map_succ f nb))"
      unfolding ks using nb(1) inj by (simp add: distinct_map del: map_map)
    moreover have "\<forall>(v, kd) \<in> set (map_succ f nb). v \<in> set (map f (map fst G)) \<and> kd \<noteq> [] \<and> distinct (map fst kd)"
    proof (intro ballI)
      fix y assume "y \<in> set (map_succ f nb)"
      then obtain v kd where y: "y = (f v, map_keydict kd)" and vk: "(v, kd) \<in> set nb"
        by (auto simp: map_succ_def)
      have "v \<in> set (map fst G) \<and> kd \<noteq> [] \<and> distinct (map fst kd)" using nb(2) vk by auto
      moreover have "map_keydict kd \<noteq> [] \<longleftrightarrow> kd \<noteq> []" by (simp add: map_keydict_def)
      ultimately show "case y of (v, kd) \<Rightarrow> v \<in> set (map f (map fst G)) \<and> kd \<noteq> [] \<and> distinct (map fst kd)"
        unfolding y by (simp add: kk del: map_map)
    qed
    ultimately show "case x of (u, nb) \<Rightarrow> distinct (map fst nb) \<and>
        (\<forall>(v, kd) \<in> set nb. v \<in> set (map f (map fst G)) \<and> kd \<noteq> [] \<and> distinct (map fst kd))"
      unfolding x by simp
  qed
qed

lemma flipSign_flipSign: "flipSign (flipSign b) = b"
  by (cases b) auto

lemma flipNode_flipNode: "flipNode (flipNode b) = b"
  by (cases b) (auto simp: flipNode_def flipSign_flipSign)

lemma map_graph_flip_twice: "map_graph flipNode (map_graph flipNode G) = G"
proof -
  have kd: "map_keydict (map_keydict kd) = kd" for kd
    by (induction kd) (auto simp: map_keydict_def)
  have nb: "map_succ flipNode (map_succ flipNode nb) = nb" for nb
    by (induction nb) (auto simp: map_succ_def kd flipNode_flipNode)
  show ?thesis
    by (induction G) (auto simp: map_graph_def nb flipNode_flipNode)
qed

lemma flipNode_explicit:
  "flipNode = (\<lambda>(name, path, direction). (name, path, if direction = Plus then Minus else Plus))"
proof (rule ext)
  fix b :: block
  obtain name path direction where b: "b = (name, path, direction)" by (cases b)
  show "flipNode b = (case b of (name, path, direction) \<Rightarrow>
          (name, path, if direction = Plus then Minus else Plus))"
    unfolding b by (cases direction) (simp_all add: flipNode_def)
qed

text \<open>
  Claim C10.  For every module graph \<open>M\<close>, one application of \<open>signReverse\<close> keeps the node and
  the interval of every block-vertex and turns its orientation \<open>+\<close> into \<open>-\<close> and \<open>-\<close> into \<open>+\<close>,
  reverses the bit array of every edge (between the flipped endpoints, under the same key),
  and preserves the number of vertices and of edges; two applications give back \<open>M\<close> itself.
\<close>

theorem signReverse_involution:
  assumes "wf_graph M"
  shows "nodes_of (signReverse M)
           = map (\<lambda>(name, path, direction).
                    (name, path, if direction = Plus then Minus else Plus)) (nodes_of M)
       \<and> edge_weights (signReverse M)
           = map (\<lambda>((sname, spath, sdirection), (dname, dpath, ddirection), i, w).
                    ((sname, spath, if sdirection = Plus then Minus else Plus),
                     (dname, dpath, if ddirection = Plus then Minus else Plus), i, rev w))
                 (edge_weights M)
       \<and> length (nodes_of (signReverse M)) = length (nodes_of M)
       \<and> length (edge_weights (signReverse M)) = length (edge_weights M)
       \<and> signReverse (signReverse M) = M"
proof -
  have a: "signReverse M = map_graph flipNode M" using assms by (rule signReverse_map_graph)
  have b: "signReverse (map_graph flipNode M) = map_graph flipNode (map_graph flipNode M)"
    using inj_flipNode assms by (intro signReverse_map_graph wf_map_graph)
  have e: "(\<lambda>(s, d, i, w). (flipNode s, flipNode d, i, rev w))
           = (\<lambda>((sname, spath, sdirection), (dname, dpath, ddirection), i, w).
                    ((sname, spath, if sdirection = Plus then Minus else Plus),
                     (dname, dpath, if ddirection = Plus then Minus else Plus), i, rev w))"
    by (auto simp: flipNode_explicit fun_eq_iff)
  have n: "nodes_of (map_graph flipNode M)
           = map (\<lambda>(name, path, direction).
                    (name, path, if direction = Plus then Minus else Plus)) (nodes_of M)"
    unfolding nodes_map_graph by (simp only: flipNode_explicit)
  have w: "edge_weights (map_graph flipNode M)
           = map (\<lambda>((sname, spath, sdirection), (dname, dpath, ddirection), i, w).
                    ((sname, spath, if sdirection = Plus then Minus else Plus),
                     (dname, dpath, if ddirection = Plus then Minus else Plus), i, rev w))
                 (edge_weights M)"
    unfolding edge_weights_map_graph by (simp only: e)
  show ?thesis
    unfolding a b map_graph_flip_twice n w by simp
qed

theorem signReverse_involution_witness:
  "wf_graph example_module
   \<and> nodes_of example_module
       = [((''B'', (1, 100)), (1, 50), Minus), ((''A'', (1, 100)), (1, 50), Plus)]
   \<and> nodes_of (signReverse example_module)
       = [((''B'', (1, 100)), (1, 50), Plus), ((''A'', (1, 100)), (1, 50), Minus)]
   \<and> edge_weights example_module
       = [(((''B'', (1, 100)), (1, 50), Minus), ((''A'', (1, 100)), (1, 50), Plus), 0, ''101''),
          (((''B'', (1, 100)), (1, 50), Minus), ((''A'', (1, 100)), (1, 50), Plus), 1, ''011''),
          (((''A'', (1, 100)), (1, 50), Plus), ((''B'', (1, 100)), (1, 50), Minus), 0, ''111''),
          (((''A'', (1, 100)), (1, 50), Plus), ((''B'', (1, 100)), (1, 50), Minus), 1, ''110'')]
   \<and> edge_weights (signReverse example_module)
       = [(((''B'', (1, 100)), (1, 50), Plus), ((''A'', (1, 100)), (1, 50), Minus), 0, ''101''),
          (((''B'', (1, 100)), (1, 50), Plus), ((''A'', (1, 100)), (1, 50), Minus), 1, ''110''),
          (((''A'', (1, 100)), (1, 50), Minus), ((''B'', (1, 100)), (1, 50), Plus), 0, ''111''),
          (((''A'', (1, 100)), (1, 50), Minus), ((''B'', (1, 100)), (1, 50), Plus), 1, ''011'')]
   \<and> length (nodes_of (signReverse example_module)) = length (nodes_of example_module)
   \<and> length (edge_weights (signReverse example_module)) = length (edge_weights example_module)
   \<and> signReverse (signReverse example_module) = example_module"
proof -
  have h: "wf_graph example_module"
    by (simp add: wf_graph_def example_module_def example_u_def example_v_def add_edge_def
        add_edge_key_def add_node_def nodes_of_def new_edge_key_def keydict_of_def succ_of_def)
  have n: "nodes_of example_module
       = [((''B'', (1, 100)), (1, 50), Minus), ((''A'', (1, 100)), (1, 50), Plus)]"
    by code_simp
  have w: "edge_weights example_module
       = [(((''B'', (1, 100)), (1, 50), Minus), ((''A'', (1, 100)), (1, 50), Plus), 0, ''101''),
          (((''B'', (1, 100)), (1, 50), Minus), ((''A'', (1, 100)), (1, 50), Plus), 1, ''011''),
          (((''A'', (1, 100)), (1, 50), Plus), ((''B'', (1, 100)), (1, 50), Minus), 0, ''111''),
          (((''A'', (1, 100)), (1, 50), Plus), ((''B'', (1, 100)), (1, 50), Minus), 1, ''110'')]"
    by code_simp
  from signReverse_involution[OF h] h show ?thesis
    unfolding n w by simp
qed

section \<open>The indexes: trimming and registration\<close>

lemma getitem_set_present:
  "map_of (nodeToPathDic st) n = Some a \<Longrightarrow> getitem_set n st = (a, st)"
  by (simp add: getitem_set_def)

lemma set_discard_present:
  "map_of (nodeToPathDic st) n = Some a \<Longrightarrow>
     set_discard n p st = st\<lparr>setHeap := (setHeap st)(a := removeAll p (setHeap st a))\<rparr>"
  by (simp add: set_discard_def getitem_set_present)

lemma trimShortModules_paths_present:
  assumes "map_of (nodeToPathDic st) n = Some a"
  shows "trimShortModules_paths t n ps st =
           st\<lparr>setHeap := (setHeap st)(a := filter (\<lambda>q. \<not> short_in t ps q) (setHeap st a)),
              nodePathToModuleDic := filter (\<lambda>e. \<not> trimmed_key t n ps e) (nodePathToModuleDic st)\<rparr>"
  using assms
proof (induction ps arbitrary: st)
  case Nil
  then show ?case by (simp add: trimShortModules_paths_def short_in_def trimmed_key_def)
next
  case (Cons p ps)
  obtain s e where p: "p = (s, e)" by (cases p)
  show ?case
  proof (cases "e - s < t")
    case True
    let ?st1 = "dict_pop (n, (s, e)) (set_discard n (s, e) st)"
    have m: "map_of (nodeToPathDic ?st1) n = Some a"
      using Cons.prems by (simp add: dict_pop_def set_discard_present)
    have unf: "trimShortModules_paths t n (p # ps) st = trimShortModules_paths t n ps ?st1"
      using True p by (simp add: trimShortModules_paths_def)
    have F1: "filter (\<lambda>q. \<not> short_in t ps q) (removeAll (s, e) xs)
              = filter (\<lambda>q. \<not> short_in t (p # ps) q) xs" for xs
      using True p by (induction xs) (auto simp: short_in_def)
    have F2: "filter (\<lambda>e. \<not> trimmed_key t n ps e) (AList.delete (n, (s, e)) xs)
              = filter (\<lambda>e. \<not> trimmed_key t n (p # ps) e) xs"
      for xs :: "((node \<times> interval) \<times> block graph) list"
      using True p by (induction xs) (auto simp: short_in_def trimmed_key_def)
    have st1: "?st1 = st\<lparr>setHeap := (setHeap st)(a := removeAll (s, e) (setHeap st a)),
                         nodePathToModuleDic := AList.delete (n, (s, e)) (nodePathToModuleDic st)\<rparr>"
      using Cons.prems by (simp add: dict_pop_def set_discard_present)
    show ?thesis
      unfolding unf Cons.IH[OF m] unfolding st1
      by (rule indexes.equality) (auto simp: F1 F2 fun_eq_iff)
  next
    case False
    have unf: "trimShortModules_paths t n (p # ps) st = trimShortModules_paths t n ps st"
      using False p by (simp add: trimShortModules_paths_def)
    have F1: "short_in t (p # ps) = short_in t ps"
      using False p by (auto simp: short_in_def fun_eq_iff)
    have F2: "trimmed_key t n (p # ps) = trimmed_key t n ps"
      by (simp add: trimmed_key_def F1 fun_eq_iff)
    show ?thesis
      unfolding unf Cons.IH[OF Cons.prems] by (simp only: F1 F2)
  qed
qed

lemma paths_of_set_at: "paths_of st n = set (set_at st n)"
  by (simp add: paths_of_def set_at_def split: option.splits)

lemma map_of_snd_inj:
  assumes "distinct (map snd D)" and "map_of D n = Some a" and "map_of D k = Some a"
  shows "n = k"
proof -
  have m1: "(n, a) \<in> set D" using assms(2) by (rule map_of_SomeD)
  have m2: "(k, a) \<in> set D" using assms(3) by (rule map_of_SomeD)
  have inj: "inj_on snd (set D)" using assms(1) by (simp add: distinct_map)
  have "(n, a) = (k, a)" by (rule inj_onD[OF inj _ m1 m2]) simp
  then show ?thesis by simp
qed

lemma filter_short_in_self:
  "filter (\<lambda>q. \<not> short_in t xs q) xs = filter (\<lambda>q. \<not> snd q - fst q < t) xs"
  by (rule filter_cong) (auto simp: short_in_def)

lemma trimShortModules_node_present:
  assumes "wf_indexes st" and "k \<in> fst ` set (nodeToPathDic st)"
  shows "nodeToPathDic (trimShortModules_node t k st) = nodeToPathDic st"
    and "nextAddr (trimShortModules_node t k st) = nextAddr st"
    and "set_at (trimShortModules_node t k st) n
           = (if n = k then filter (\<lambda>q. \<not> snd q - fst q < t) (set_at st k) else set_at st n)"
    and "nodePathToModuleDic (trimShortModules_node t k st)
           = filter (\<lambda>e. \<not> trimmed_key t k (set_at st k) e) (nodePathToModuleDic st)"
proof -
  obtain a where a: "map_of (nodeToPathDic st) k = Some a"
    using assms(2) by (cases "map_of (nodeToPathDic st) k") (auto simp: map_of_eq_None_iff)
  have eq: "trimShortModules_node t k st =
      st\<lparr>setHeap := (setHeap st)(a := filter (\<lambda>q. \<not> short_in t (setHeap st a) q) (setHeap st a)),
         nodePathToModuleDic := filter (\<lambda>e. \<not> trimmed_key t k (setHeap st a) e) (nodePathToModuleDic st)\<rparr>"
    using a by (simp add: trimShortModules_node_def getitem_set_present trimShortModules_paths_present)
  have sk: "set_at st k = setHeap st a" using a by (simp add: set_at_def)
  show "nodeToPathDic (trimShortModules_node t k st) = nodeToPathDic st" by (simp add: eq)
  show "nextAddr (trimShortModules_node t k st) = nextAddr st" by (simp add: eq)
  show "nodePathToModuleDic (trimShortModules_node t k st)
           = filter (\<lambda>e. \<not> trimmed_key t k (set_at st k) e) (nodePathToModuleDic st)"
    by (simp add: eq sk)
  show "set_at (trimShortModules_node t k st) n
           = (if n = k then filter (\<lambda>q. \<not> snd q - fst q < t) (set_at st k) else set_at st n)"
  proof (cases "n = k")
    case True
    then show ?thesis using a by (simp add: eq set_at_def filter_short_in_self)
  next
    case False
    show ?thesis
    proof (cases "map_of (nodeToPathDic st) n")
      case None
      then show ?thesis using False by (simp add: eq set_at_def)
    next
      case (Some a')
      have "a' \<noteq> a"
      proof
        assume "a' = a"
        then have "map_of (nodeToPathDic st) n = Some a" using Some by simp
        from map_of_snd_inj[OF _ this a] assms(1) have "n = k" by (simp add: wf_indexes_def)
        then show False using False by simp
      qed
      then show ?thesis using False Some by (simp add: eq set_at_def)
    qed
  qed
qed

lemma wf_indexes_cong:
  "nodeToPathDic st' = nodeToPathDic st \<Longrightarrow> nextAddr st' = nextAddr st \<Longrightarrow> wf_indexes st' = wf_indexes st"
  by (simp add: wf_indexes_def)

lemma trimShortModules_fold:
  assumes "wf_indexes st" and "set ks \<subseteq> fst ` set (nodeToPathDic st)"
  shows "nodeToPathDic (fold (trimShortModules_node t) ks st) = nodeToPathDic st
       \<and> nextAddr (fold (trimShortModules_node t) ks st) = nextAddr st
       \<and> (\<forall>n. set_at (fold (trimShortModules_node t) ks st) n
              = (if n \<in> set ks then filter (\<lambda>q. \<not> snd q - fst q < t) (set_at st n) else set_at st n))
       \<and> nodePathToModuleDic (fold (trimShortModules_node t) ks st)
           = filter (\<lambda>e. \<not> (fst (fst e) \<in> set ks \<and> short_in t (set_at st (fst (fst e))) (snd (fst e))))
                    (nodePathToModuleDic st)"
  using assms
proof (induction ks arbitrary: st)
  case Nil
  then show ?case by simp
next
  case (Cons k ks)
  let ?st1 = "trimShortModules_node t k st"
  have k: "k \<in> fst ` set (nodeToPathDic st)" using Cons.prems(2) by simp
  note n1 = trimShortModules_node_present[OF Cons.prems(1) k]
  have wf1: "wf_indexes ?st1" using Cons.prems(1) wf_indexes_cong[OF n1(1) n1(2)] by simp
  have sub1: "set ks \<subseteq> fst ` set (nodeToPathDic ?st1)" using Cons.prems(2) n1(1) by simp
  note ih = Cons.IH[OF wf1 sub1]
  have sets: "set_at (fold (trimShortModules_node t) ks ?st1) n
              = (if n \<in> set (k # ks) then filter (\<lambda>q. \<not> snd q - fst q < t) (set_at st n) else set_at st n)" for n
  proof -
    have "set_at (fold (trimShortModules_node t) ks ?st1) n
          = (if n \<in> set ks then filter (\<lambda>q. \<not> snd q - fst q < t) (set_at ?st1 n) else set_at ?st1 n)"
      by (rule ih[THEN conjunct2, THEN conjunct2, THEN conjunct1, THEN spec])
    then show ?thesis by (simp add: n1(3))
  qed
  have keep: "(\<not> trimmed_key t k (set_at st k) e
               \<and> \<not> (fst (fst e) \<in> set ks \<and> short_in t (set_at ?st1 (fst (fst e))) (snd (fst e))))
             = (\<not> (fst (fst e) \<in> set (k # ks) \<and> short_in t (set_at st (fst (fst e))) (snd (fst e))))"
    for e :: "(node \<times> interval) \<times> block graph"
  proof (cases "fst (fst e) = k")
    case True
    have "\<not> short_in t (filter (\<lambda>q. \<not> snd q - fst q < t) (set_at st k)) (snd (fst e))"
      by (simp add: short_in_def)
    then show ?thesis using True by (simp add: n1(3) trimmed_key_def)
  next
    case False
    then show ?thesis by (simp add: n1(3) trimmed_key_def)
  qed
  have dict: "nodePathToModuleDic (fold (trimShortModules_node t) ks ?st1)
           = filter (\<lambda>e. \<not> (fst (fst e) \<in> set (k # ks) \<and> short_in t (set_at st (fst (fst e))) (snd (fst e))))
                    (nodePathToModuleDic st)"
  proof -
    have "nodePathToModuleDic (fold (trimShortModules_node t) ks ?st1)
          = filter (\<lambda>e. \<not> (fst (fst e) \<in> set ks \<and> short_in t (set_at ?st1 (fst (fst e))) (snd (fst e))))
                   (nodePathToModuleDic ?st1)"
      by (rule ih[THEN conjunct2, THEN conjunct2, THEN conjunct2])
    also have "\<dots> = filter (\<lambda>e. \<not> (fst (fst e) \<in> set ks \<and> short_in t (set_at ?st1 (fst (fst e))) (snd (fst e))))
                   (filter (\<lambda>e. \<not> trimmed_key t k (set_at st k) e) (nodePathToModuleDic st))"
      by (simp only: n1(4))
    also have "\<dots> = filter (\<lambda>e. \<not> (fst (fst e) \<in> set (k # ks) \<and> short_in t (set_at st (fst (fst e))) (snd (fst e))))
                    (nodePathToModuleDic st)"
      unfolding filter_filter by (rule filter_cong[OF refl]) (simp only: keep)
    finally show ?thesis .
  qed
  have d1: "nodeToPathDic (fold (trimShortModules_node t) ks ?st1) = nodeToPathDic st"
    using ih[THEN conjunct1] n1(1) by simp
  have d2: "nextAddr (fold (trimShortModules_node t) ks ?st1) = nextAddr st"
    using ih[THEN conjunct2, THEN conjunct1] n1(2) by simp
  show ?case
  proof (intro conjI allI)
    show "nodeToPathDic (fold (trimShortModules_node t) (k # ks) st) = nodeToPathDic st"
      using d1 by simp
    show "nextAddr (fold (trimShortModules_node t) (k # ks) st) = nextAddr st"
      using d2 by simp
    show "set_at (fold (trimShortModules_node t) (k # ks) st) n
          = (if n \<in> set (k # ks) then filter (\<lambda>q. \<not> snd q - fst q < t) (set_at st n) else set_at st n)" for n
      using sets[of n] by (simp only: fold_simps)
    show "nodePathToModuleDic (fold (trimShortModules_node t) (k # ks) st)
           = filter (\<lambda>e. \<not> (fst (fst e) \<in> set (k # ks) \<and> short_in t (set_at st (fst (fst e))) (snd (fst e))))
                    (nodePathToModuleDic st)"
      using dict by (simp only: fold_simps)
  qed
qed


lemma map_of_filter_key:
  "map_of (filter (\<lambda>e. P (fst e)) xs) k = (if P k then map_of xs k else None)"
  by (induction xs) auto

lemma set_at_absent: "n \<notin> fst ` set (nodeToPathDic st) \<Longrightarrow> set_at st n = []"
  by (simp add: set_at_def map_of_eq_None_iff[THEN iffD2])

lemma trimShortModules_paths_of:
  assumes "wf_indexes st"
  shows "paths_of (trimShortModules st) n = {p \<in> paths_of st n. \<not> snd p - fst p < 10}"
proof -
  have sub: "set (map fst (nodeToPathDic st)) \<subseteq> fst ` set (nodeToPathDic st)" by simp
  note f = trimShortModules_fold[OF assms sub, of 10]
  have "set_at (trimShortModules st) n
        = (if n \<in> set (map fst (nodeToPathDic st))
           then filter (\<lambda>q. \<not> snd q - fst q < 10) (set_at st n) else set_at st n)"
    unfolding trimShortModules_def by (rule f[THEN conjunct2, THEN conjunct2, THEN conjunct1, THEN spec])
  then show ?thesis
    by (cases "n \<in> fst ` set (nodeToPathDic st)") (auto simp: paths_of_set_at set_at_absent)
qed

lemma trimShortModules_module_of:
  assumes "wf_indexes st"
  shows "module_of (trimShortModules st) (n, p)
         = (if p \<in> paths_of st n \<and> snd p - fst p < 10 then None else module_of st (n, p))"
proof -
  have sub: "set (map fst (nodeToPathDic st)) \<subseteq> fst ` set (nodeToPathDic st)" by simp
  note f = trimShortModules_fold[OF assms sub, of 10]
  let ?P = "\<lambda>k. \<not> (fst k \<in> set (map fst (nodeToPathDic st)) \<and> short_in 10 (set_at st (fst k)) (snd k))"
  have "nodePathToModuleDic (trimShortModules st) = filter (\<lambda>e. ?P (fst e)) (nodePathToModuleDic st)"
    unfolding trimShortModules_def by (rule f[THEN conjunct2, THEN conjunct2, THEN conjunct2])
  then have "module_of (trimShortModules st) (n, p) = (if ?P (n, p) then module_of st (n, p) else None)"
    unfolding module_of_def using map_of_filter_key[of ?P "nodePathToModuleDic st" "(n, p)"] by simp
  moreover have "?P (n, p) \<longleftrightarrow> \<not> (p \<in> paths_of st n \<and> snd p - fst p < 10)"
    by (cases "n \<in> fst ` set (nodeToPathDic st)") (auto simp: paths_of_set_at set_at_absent short_in_def)
  ultimately show ?thesis by simp
qed

lemma scc_edge_visited:
  "pair_of e \<in> set (visitedEdgePair st) \<Longrightarrow>
     scc_edge nmp mmp e st = Inr (st\<lparr>numberOfEdges := numberOfEdges st + 2\<rparr>)"
  by (simp add: scc_edge_def Let_def)

lemma scc_edges_replicate_visited:
  "pair_of e \<in> set (visitedEdgePair st) \<Longrightarrow>
     scc_edges nmp mmp (replicate n e) st = Inr (st\<lparr>numberOfEdges := numberOfEdges st + 2 * n\<rparr>)"
proof (induction n arbitrary: st)
  case 0
  then show ?case by simp
next
  case (Suc n)
  have v: "pair_of e \<in> set (visitedEdgePair (st\<lparr>numberOfEdges := numberOfEdges st + 2\<rparr>))"
    using Suc.prems by simp
  show ?case using Suc.IH[OF v] Suc.prems by (simp add: scc_edge_visited)
qed

text \<open>
  Claim C4 asks that registering a new module adds exactly its blocks of length at least 20,
  wherever the short blocks stand in the enumeration of the module.  The loop leaves at the
  first short block instead of passing over it.  With the block of 19 letters first, neither
  \<open>updateNewModule\<close> nor the registration loop of \<open>checkBlockOverlap\<close> registers the block of
  21 letters that follows; with the same two blocks in the other order, it is registered.
\<close>

theorem updateNewModule_stops_at_short_block:
  "paths_of (updateNewModule short_first_module empty_indexes) (''A'', (1, 105)) = {}
   \<and> module_of (updateNewModule short_first_module empty_indexes) ((''A'', (1, 105)), (1, 22)) = None
   \<and> paths_of (checkBlockOverlap_register [] [short_first_module] empty_indexes) (''A'', (1, 105)) = {}
   \<and> module_of (checkBlockOverlap_register [] [short_first_module] empty_indexes)
         ((''A'', (1, 105)), (1, 22)) = None
   \<and> paths_of (updateNewModule long_first_module empty_indexes) (''A'', (1, 105)) = {(1, 22)}
   \<and> module_of (updateNewModule long_first_module empty_indexes) ((''A'', (1, 105)), (1, 22))
       = Some long_first_module"
  by code_simp

text \<open>
  \<open>checkBlockOverlap\<close> runs its registration loop on lists of two or three modules.  After a
  module of one long block, the module whose block of 19 letters comes first loses its block
  of 21 letters in the same way.
\<close>

lemma checkBlockOverlap_register_two_modules:
  "paths_of (checkBlockOverlap_register []
               [[(((''C'', (1, 50)), (1, 50), Plus), [])], short_first_module] empty_indexes)
     (''C'', (1, 50)) = {(1, 50)}
   \<and> paths_of (checkBlockOverlap_register []
               [[(((''C'', (1, 50)), (1, 50), Plus), [])], short_first_module] empty_indexes)
     (''A'', (1, 105)) = {}
   \<and> module_of (checkBlockOverlap_register []
               [[(((''C'', (1, 50)), (1, 50), Plus), [])], short_first_module] empty_indexes)
         ((''A'', (1, 105)), (1, 22)) = None"
  by code_simp

section \<open>The driver: trimming and output\<close>

lemma scc_main_final_trim:
  "scc_main nmp mmp nodes edges =
     (case scc_edges nmp mmp edges (initial_scc_state nodes) of
        Inl err \<Rightarrow> Inl err
      | Inr st \<Rightarrow> Inr (emitted_modules (trimShortModules (index st))))"
  by (simp add: scc_main_def)

lemma scc_edge_fresh:
  "pair_of e \<notin> set (visitedEdgePair st) \<Longrightarrow>
     scc_edge nmp mmp e st =
       process_fresh nmp mmp e
         (st\<lparr>numberOfEdges := numberOfEdges st + 2,
             visitedEdgePair := pair_of e # visitedEdgePair st,
             index := (if (numberOfEdges st + 2) mod 500 = 0
                       then trimShortModules (index st) else index st)\<rparr>)"
  by (simp add: scc_edge_def Let_def)

lemma first_edge_of_example:
  "case scc_edge no_partition no_partition example_alignment
          (initial_scc_state [example_nodeA, example_nodeB]) of
     Inl err \<Rightarrow> False
   | Inr st \<Rightarrow> pair_of example_alignment \<in> set (visitedEdgePair st) \<and> numberOfEdges st = 2
        \<and> (1, 5) \<in> paths_of (index st) example_nodeA
        \<and> (1, 5) \<notin> paths_of (trimShortModules (index st)) example_nodeA"
  by code_simp

text \<open>
  Claim C6 says that the driver trims whenever the running counter of directed edges is a
  multiple of 500.  It does not when the alignment at that count was visited before: the
  \<^verbatim>\<open>continue\<close> for a visited pair comes ahead of the test.  Here the same alignment occurs 250
  times in a component of two nodes; the first occurrence leaves the piece \<open>(1, 5)\<close> of node
  \<open>A\<close>, of length 4, in the index; at the last the counter is 500, and the piece is still live
  although a trimming would have removed it.
\<close>

theorem trim_at_500_counterexample:
  "case scc_edges no_partition no_partition (example_alignment # replicate 249 example_alignment)
          (initial_scc_state [example_nodeA, example_nodeB]) of
     Inl err \<Rightarrow> False
   | Inr st \<Rightarrow> numberOfEdges st = 500
        \<and> (1, 5) \<in> paths_of (index st) example_nodeA
        \<and> (1, 5) \<notin> paths_of (trimShortModules (index st)) example_nodeA"
proof -
  let ?r = "scc_edge no_partition no_partition example_alignment
              (initial_scc_state [example_nodeA, example_nodeB])"
  from first_edge_of_example obtain st1 where r: "?r = Inr st1"
    and v: "pair_of example_alignment \<in> set (visitedEdgePair st1)"
    and n: "numberOfEdges st1 = 2"
    and p: "(1, 5) \<in> paths_of (index st1) example_nodeA"
           "(1, 5) \<notin> paths_of (trimShortModules (index st1)) example_nodeA"
    by (cases ?r) auto
  have "scc_edges no_partition no_partition (example_alignment # replicate 249 example_alignment)
          (initial_scc_state [example_nodeA, example_nodeB])
        = Inr (st1\<lparr>numberOfEdges := numberOfEdges st1 + 2 * 249\<rparr>)"
    using r scc_edges_replicate_visited[OF v, of no_partition no_partition 249] by simp
  then show ?thesis using n p by simp
qed

text \<open>
  Claim C6, amended.  \<open>trimShortModules\<close> removes from both indexes exactly the live blocks
  whose length is below 10 and leaves every other entry as it was.  An iteration of the driver
  whose alignment was visited before only advances the counter; every other iteration trims
  first when the advanced counter is a multiple of 500; and the indexes are trimmed once more
  after the last alignment of the component, before the output.
\<close>

theorem trimShortModules_and_driver:
  assumes "wf_indexes idx"
  shows "paths_of (trimShortModules idx) n = {p \<in> paths_of idx n. \<not> snd p - fst p < 10}
       \<and> module_of (trimShortModules idx) (n, p)
           = (if p \<in> paths_of idx n \<and> snd p - fst p < 10 then None else module_of idx (n, p))
       \<and> scc_edge nmp mmp e st
           = (if pair_of e \<in> set (visitedEdgePair st)
              then Inr (st\<lparr>numberOfEdges := numberOfEdges st + 2\<rparr>)
              else process_fresh nmp mmp e
                     (st\<lparr>numberOfEdges := numberOfEdges st + 2,
                         visitedEdgePair := pair_of e # visitedEdgePair st,
                         index := (if (numberOfEdges st + 2) mod 500 = 0
                                   then trimShortModules (index st) else index st)\<rparr>))
       \<and> scc_main nmp mmp nodes edges
           = (case scc_edges nmp mmp edges (initial_scc_state nodes) of
                Inl err \<Rightarrow> Inl err
              | Inr st \<Rightarrow> Inr (emitted_modules (trimShortModules (index st))))"
  using trimShortModules_paths_of[OF assms, of n] trimShortModules_module_of[OF assms, of n p]
    scc_edge_visited[of e st nmp mmp] scc_edge_fresh[of e st nmp mmp]
    scc_main_final_trim[of nmp mmp nodes edges]
  by simp

theorem trimShortModules_and_driver_witness:
  "wf_indexes example_indexes
   \<and> paths_of (trimShortModules example_indexes) example_nodeA
       = {p \<in> paths_of example_indexes example_nodeA. \<not> snd p - fst p < 10}
   \<and> (1, 5) \<in> paths_of example_indexes example_nodeA
   \<and> module_of (trimShortModules example_indexes) (example_nodeA, (1, 5)) = None
   \<and> module_of (trimShortModules example_indexes) (example_nodeA, (5, 105))
       = module_of example_indexes (example_nodeA, (5, 105))"
proof -
  have h: "wf_indexes example_indexes" by code_simp
  have m: "(1, 5) \<in> paths_of example_indexes example_nodeA" by code_simp
  have q: "(5::int) - 1 < 10" "\<not> (105::int) - 5 < 10" by simp_all
  from trimShortModules_and_driver[OF h, of example_nodeA "(1, 5)"]
    trimShortModules_and_driver[OF h, of example_nodeA "(5, 105)"] h m q
  show ?thesis by simp
qed

text \<open>
  Claim C7 asks that every line written for a component holds at least two block-vertices.
  The modules of one vertex are filtered out before the vertices with an inverted path are
  left out of each line, so a module of one proper and one inverted vertex is written as a
  line of a single block-vertex.
\<close>

theorem emitted_line_of_one_block:
  "emitted_modules (trimShortModules (updateNewModule inverted_module empty_indexes))
     = [[((''A'', (1, 105)), (1, 51), Plus)]]"
  by code_simp

section \<open>The bit score cut of \<^verbatim>\<open>blastToDf\<close>\<close>

lemma add_pairs_columns:
  "subjectAccVer (add_pairs r) = subjectAccVer r" "queryAccVer (add_pairs r) = queryAccVer r"
  "bitScore (add_pairs r) = bitScore r" "qEnd (add_pairs r) = qEnd r"
  "qStart (add_pairs r) = qStart r" "blast_row.truncate (add_pairs r) = r"
  by (simp_all add: add_pairs_def blast_row.defs)

lemma example_row_fails_spec_cut: "\<not> spec_bitscore_cut default_threshold example_row"
  by (simp add: spec_bitscore_cut_def default_threshold_def example_row_def)

lemma example_row_scoreThreshold:
  "scoreThreshold exact_arithmetic default_constant example_row = 167"
  by (simp add: scoreThreshold_def default_constant_def example_row_def exact_arithmetic_def
      floor_eq_iff)

lemma example_row_kept:
  "blastToDf exact_arithmetic [example_row] default_threshold default_constant
     = [add_pairs example_row]"
proof -
  have a: "subjectAccVer (add_pairs example_row) \<noteq> queryAccVer (add_pairs example_row)"
    by (simp add: add_pairs_columns) (simp add: example_row_def)
  have b: "scoreThreshold exact_arithmetic default_constant (add_pairs example_row) = 167"
    using example_row_scoreThreshold by (simp add: scoreThreshold_def add_pairs_columns)
  have c: "bitScore (add_pairs example_row) = 67"
    by (simp add: add_pairs_columns) (simp add: example_row_def)
  have d: "greater_eq exact_arithmetic (from_int exact_arithmetic 67)
             (times exact_arithmetic default_threshold (from_int exact_arithmetic 167))"
    by (simp add: exact_arithmetic_def default_threshold_def)
  show ?thesis
    by (simp add: blastToDf_def Let_def a b c d)
qed

text \<open>
  Claim C9 says that the rows kept are those whose bit score is at least the threshold times
  \<open>1.6446838 \<cdot> align_len + 3\<close>.  For an alignment without gaps of 101 columns and bit score
  67 that bound is \<open>0.4 \<cdot> 169.11\<dots> = 67.64\<dots>\<close>, so the row should go; the code computes
  \<open>0.4 \<cdot> 167 = 66.8\<close> from \<open>qEnd - qStart = 100\<close> and keeps it.  (Both bounds are so far from
  67 that rounding in double precision decides nothing.)
\<close>

theorem blastToDf_alignment_length_counterexample:
  "queryAccVer example_row \<noteq> subjectAccVer example_row
   \<and> alignmentLength example_row = 101
   \<and> \<not> (of_int (bitScore example_row)
          \<ge> (4 / 10 :: rat) * (16446838 / 10000000 * of_int (alignmentLength example_row) + 3))
   \<and> map blast_row.truncate
         (blastToDf exact_arithmetic [example_row] default_threshold default_constant)
       = [example_row]"
  using example_row_fails_spec_cut example_row_kept
  by (simp add: add_pairs_columns spec_bitscore_cut_def default_threshold_def)
     (simp add: example_row_def)

text \<open>
  Claim C9, amended.  Whatever the floating-point arithmetic, \<open>blastToDf\<close> keeps, in their
  order, exactly the rows whose query and subject accessions differ and whose bit score is at
  least the threshold times the integer \<^verbatim>\<open>((qEnd - qStart) * constant + 3).astype(int)\<close>: the
  length that enters is the span of the query coordinates, not the alignment length, and the
  sum is truncated before it is multiplied.  So two rows that differ only in their alignment
  length are kept or dropped together.
\<close>

theorem blastToDf_query_span_cut:
  "map blast_row.truncate (blastToDf ar df threshold constant)
     = filter (\<lambda>r. subjectAccVer r \<noteq> queryAccVer r \<and>
                greater_eq ar (from_int ar (bitScore r))
                  (times ar threshold
                     (from_int ar
                        (astype_int ar
                           (plus ar (times ar (from_int ar (qEnd r - qStart r)) constant)
                                    (from_int ar 3)))))) df
   \<and> (r \<lparr>alignmentLength := n\<rparr> \<in> set (map blast_row.truncate
                                          (blastToDf ar [r \<lparr>alignmentLength := n\<rparr>] threshold constant))
      \<longleftrightarrow> r \<in> set (map blast_row.truncate (blastToDf ar [r] threshold constant)))"
proof -
  have rows: "map blast_row.truncate (blastToDf ar df threshold constant)
     = filter (\<lambda>r. subjectAccVer r \<noteq> queryAccVer r \<and>
                greater_eq ar (from_int ar (bitScore r))
                  (times ar threshold
                     (from_int ar
                        (astype_int ar
                           (plus ar (times ar (from_int ar (qEnd r - qStart r)) constant)
                                    (from_int ar 3)))))) df" for df
    unfolding blastToDf_def Let_def scoreThreshold_def
    by (induction df) (simp_all add: add_pairs_columns)
  show ?thesis
    unfolding rows by simp
qed

section \<open>Properties of the two-way module chop\<close>





lemma p2m_fresh_edgeList [simp]:
  "p2m_fresh v k f1 f2 (st\<lparr>edgeList := l\<rparr>) = p2m_fresh v k f1 f2 st"
  by (simp add: p2m_fresh_def)

lemma p2m_placed_edgeList [simp]:
  "p2m_placed f1 f2 (st\<lparr>edgeList := l\<rparr>) = p2m_placed f1 f2 st"
  by (simp add: p2m_placed_def)







end
